theory Spec2Isabelle
  imports Complex_Main "HOL-Library.AList" "HOL-Library.Char_ord" "HOL-Library.List_Lexorder"
    "HOL-Library.Multiset"
begin

section \<open>Core types (core.py)\<close>

text \<open>
  Values of the open property bags (\<^verbatim>\<open>dict[str, Any]\<close>) and of the persisted records are
  JSON trees. An object keeps its keys in insertion order, as a Python dict does.
  Floating-point numbers are left out of the bags: no operation of the library
  computes with a bag's content.
\<close>

datatype json =
    JNull
  | JBool bool
  | JInt int
  | JStr string
  | JArr "json list"
  | JObj "(string \<times> json) list"

type_synonym bag = "(string \<times> json) list"

record Entity =
  entity_id :: string
  entity_type :: string
  entity_properties :: bag

record Relation =
  relation_source :: string
  relation_target :: string
  relation_type :: string
  relation_properties :: bag

record Structure =
  entities :: "Entity list"
  relations :: "Relation list"

subsection \<open>Exceptions\<close>

text \<open>
  An exception of the source is a value of \<open>error\<close>; a function that can raise returns
  \<open>error + 'a\<close>, with \<open>Inl\<close> for the exception.
\<close>

datatype error =
    RecursionError
  | KeyError string
  | TypeError string
  | ValueError string

definition bind_err :: "error + 'a \<Rightarrow> ('a \<Rightarrow> error + 'b) \<Rightarrow> error + 'b" where
  "bind_err r f = (case r of Inl e \<Rightarrow> Inl e | Inr v \<Rightarrow> f v)"

text \<open>A list comprehension whose element expression may raise stops at the first error.\<close>

fun map_err :: "('a \<Rightarrow> error + 'b) \<Rightarrow> 'a list \<Rightarrow> error + 'b list" where
  "map_err f [] = Inr []"
| "map_err f (x # xs) =
     bind_err (f x) (\<lambda>y. bind_err (map_err f xs) (\<lambda>ys. Inr (y # ys)))"

text \<open>A loop that appends the elements for which a test that may raise answers true.\<close>

fun filter_err :: "('a \<Rightarrow> error + bool) \<Rightarrow> 'a list \<Rightarrow> error + 'a list" where
  "filter_err f [] = Inr []"
| "filter_err f (x # xs) =
     bind_err (f x) (\<lambda>b. bind_err (filter_err f xs) (\<lambda>ys. Inr (if b then x # ys else ys)))"

subsection \<open>The structural feature checks\<close>

definition entity_types :: "Structure \<Rightarrow> string set" where
  "entity_types s = set (map entity_type (entities s))"

definition check_recursive :: "Structure \<Rightarrow> bool" where
  "check_recursive s =
     (let types = map entity_type (entities s) in length types \<noteq> card (set types))"

text \<open>\<^verbatim>\<open>len(self.entities) - 1\<close> is \<open>-1\<close> on an empty entity list, so the count is an integer.\<close>

definition check_linear_chain :: "Structure \<Rightarrow> bool" where
  "check_linear_chain s =
     (let ordered = filter (\<lambda>r. relation_type r = ''ordered_before'') (relations s)
      in int (length ordered) = int (length (entities s)) - 1)"

definition check_tree :: "Structure \<Rightarrow> bool" where
  "check_tree s =
     (let contains = filter (\<lambda>r. relation_type r = ''contains'') (relations s)
      in int (length contains) = int (length (entities s)) - 1)"

definition check_bipartite :: "Structure \<Rightarrow> bool" where
  "check_bipartite s = (card (entity_types s) = 2)"

subsection \<open>Cycle check: adjacency dictionary and depth-first search\<close>

type_synonym adjacency = "string \<rightharpoonup> string list"

text \<open>\<^verbatim>\<open>adj.setdefault(r.source, []).append(r.target)\<close>\<close>

definition add_edge :: "Relation \<Rightarrow> adjacency \<Rightarrow> adjacency" where
  "add_edge r adj =
     (case adj (relation_source r) of
        None \<Rightarrow> adj(relation_source r \<mapsto> [relation_target r])
      | Some ts \<Rightarrow> adj(relation_source r \<mapsto> ts @ [relation_target r]))"

definition build_adj :: "Structure \<Rightarrow> adjacency" where
  "build_adj s =
     fold add_edge (relations s)
       (fold (\<lambda>e adj. adj(entity_id e \<mapsto> [])) (entities s) Map.empty)"

text \<open>\<^verbatim>\<open>adj.get(node, [])\<close>\<close>

definition adj_get :: "adjacency \<Rightarrow> string \<Rightarrow> string list" where
  "adj_get adj node = (case adj node of None \<Rightarrow> [] | Some ts \<Rightarrow> ts)"

text \<open>
  The state of the search is the pair of the two marker sets \<^verbatim>\<open>visited\<close> and
  \<^verbatim>\<open>in_stack\<close>, which the nested function \<^verbatim>\<open>dfs\<close> mutates. \<^verbatim>\<open>dfs\<close> calls itself once
  per node of the path it follows, and the interpreter raises \<^verbatim>\<open>RecursionError\<close> when
  the calls nest deeper than its recursion limit. The first argument is the number of
  nested calls of \<^verbatim>\<open>dfs\<close> the interpreter still allows: \<open>dfs\<close> at \<open>0\<close> raises, and no
  caller catches the exception. \<open>dfs_loop\<close> is the \<^verbatim>\<open>for neighbor in adj.get(node, [])\<close>
  loop of one call. When the search answers \<open>True\<close> it returns at once, without taking
  the node off the stack.
\<close>

type_synonym dfs_state = "string set \<times> string set"

fun dfs :: "nat \<Rightarrow> adjacency \<Rightarrow> string \<Rightarrow> dfs_state \<Rightarrow> error + (bool \<times> dfs_state)"
  and dfs_loop :: "nat \<Rightarrow> adjacency \<Rightarrow> string list \<Rightarrow> dfs_state \<Rightarrow> error + (bool \<times> dfs_state)"
where
  "dfs 0 adj node st = Inl RecursionError"
| "dfs (Suc n) adj node (visited, in_stack) =
     (case dfs_loop n adj (adj_get adj node) (insert node visited, insert node in_stack) of
        Inl e \<Rightarrow> Inl e
      | Inr (True, st') \<Rightarrow> Inr (True, st')
      | Inr (False, (visited', in_stack')) \<Rightarrow> Inr (False, (visited', in_stack' - {node})))"
| "dfs_loop n adj [] st = Inr (False, st)"
| "dfs_loop n adj (neighbor # rest) (visited, in_stack) =
     (if neighbor \<in> in_stack then Inr (True, (visited, in_stack))
      else if neighbor \<notin> visited then
        (case dfs n adj neighbor (visited, in_stack) of
           Inl e \<Rightarrow> Inl e
         | Inr (True, st') \<Rightarrow> Inr (True, st')
         | Inr (False, st') \<Rightarrow> dfs_loop n adj rest st')
      else dfs_loop n adj rest (visited, in_stack))"

text \<open>\<^verbatim>\<open>any(dfs(e.id) for e in self.entities if e.id not in visited)\<close>: the filter is
  evaluated lazily, after the searches from the earlier roots.\<close>

fun dfs_roots :: "nat \<Rightarrow> adjacency \<Rightarrow> Entity list \<Rightarrow> dfs_state \<Rightarrow> error + bool" where
  "dfs_roots n adj [] st = Inr False"
| "dfs_roots n adj (e # es) (visited, in_stack) =
     (if entity_id e \<notin> visited then
        (case dfs n adj (entity_id e) (visited, in_stack) of
           Inl e' \<Rightarrow> Inl e'
         | Inr (True, st') \<Rightarrow> Inr True
         | Inr (False, st') \<Rightarrow> dfs_roots n adj es st')
      else dfs_roots n adj es (visited, in_stack))"

text \<open>\<open>check_cycle n s\<close> is \<^verbatim>\<open>s._check_cycle()\<close> run where the interpreter allows \<open>n\<close>
  nested calls of \<^verbatim>\<open>dfs\<close>.\<close>

definition check_cycle :: "nat \<Rightarrow> Structure \<Rightarrow> error + bool" where
  "check_cycle n s =
     (if relations s = [] then Inr False
      else dfs_roots n (build_adj s) (entities s) ({}, {}))"

text \<open>Every identifier that occurs in the structure; the search never nests deeper than
  their number.\<close>

definition node_ids :: "Structure \<Rightarrow> string list" where
  "node_ids s =
     map entity_id (entities s) @ map relation_source (relations s)
       @ map relation_target (relations s)"

text \<open>\<^verbatim>\<open>check = feature_checks.get(feature); return check() if check else False\<close>. Only the
  cycle check recurses.\<close>

definition has_feature :: "nat \<Rightarrow> Structure \<Rightarrow> string \<Rightarrow> error + bool" where
  "has_feature n s feature =
     (if feature = ''recursive_decomposability'' then Inr (check_recursive s)
      else if feature = ''linear_chain'' then Inr (check_linear_chain s)
      else if feature = ''tree'' then Inr (check_tree s)
      else if feature = ''cycle'' then check_cycle n s
      else if feature = ''bipartite'' then Inr (check_bipartite s)
      else Inr False)"

subsection \<open>Constraints, goals, problems\<close>

datatype ConstraintType = INVARIANT | PRECONDITION | BOUNDARY

fun ConstraintType_value :: "ConstraintType \<Rightarrow> string" where
  "ConstraintType_value INVARIANT = ''invariant''"
| "ConstraintType_value PRECONDITION = ''precondition''"
| "ConstraintType_value BOUNDARY = ''boundary''"

record Constraint =
  constraint_predicate :: string
  constraint_over :: "string list"
  constraint_type :: ConstraintType

datatype GoalType = FIND | TRANSFORM | PROVE | OPTIMIZE | CONSTRUCT

fun GoalType_value :: "GoalType \<Rightarrow> string" where
  "GoalType_value FIND = ''find''"
| "GoalType_value GoalType.TRANSFORM = ''transform''"
| "GoalType_value PROVE = ''prove''"
| "GoalType_value OPTIMIZE = ''optimize''"
| "GoalType_value CONSTRUCT = ''construct''"

record Goal =
  goal_type :: GoalType
  goal_target :: string
  goal_predicate :: string

record Problem =
  problem_id :: string
  problem_name :: string
  problem_structure :: Structure
  problem_constraints :: "Constraint list"
  problem_goal :: "Goal option"
  problem_tags :: "string list"

definition structural_features :: "nat \<Rightarrow> Problem \<Rightarrow> error + string list" where
  "structural_features n p =
     filter_err (has_feature n (problem_structure p))
       [''recursive_decomposability'', ''linear_chain'', ''tree'', ''cycle'', ''bipartite'']"

subsection \<open>Solutions and patterns\<close>

datatype Operation =
  DECOMPOSE | COMPOSE | TRANSFORM | REDUCE | SEARCH | FIX | DUALIZE | LIFT | PROJECT | CLASSIFY

fun Operation_value :: "Operation \<Rightarrow> string" where
  "Operation_value DECOMPOSE = ''decompose''"
| "Operation_value COMPOSE = ''compose''"
| "Operation_value Operation.TRANSFORM = ''transform''"
| "Operation_value REDUCE = ''reduce''"
| "Operation_value SEARCH = ''search''"
| "Operation_value FIX = ''fix''"
| "Operation_value DUALIZE = ''dualize''"
| "Operation_value LIFT = ''lift''"
| "Operation_value PROJECT = ''project''"
| "Operation_value CLASSIFY = ''classify''"

record Step =
  step_operation :: Operation
  step_args :: bag
  step_binds :: "string option"
  step_rationale :: string

datatype CompositionType = SEQUENTIAL | PARALLEL | CONDITIONAL | ITERATIVE

fun CompositionType_value :: "CompositionType \<Rightarrow> string" where
  "CompositionType_value SEQUENTIAL = ''sequential''"
| "CompositionType_value PARALLEL = ''parallel''"
| "CompositionType_value CONDITIONAL = ''conditional''"
| "CompositionType_value ITERATIVE = ''iterative''"

record Transformation =
  transformation_steps :: "Step list"
  transformation_composition_type :: CompositionType

record Postcondition =
  postcondition_predicate :: string
  postcondition_guarantees :: string

record Solution =
  solution_id :: string
  solution_name :: string
  solution_preconditions :: "string list"
  solution_transformation :: Transformation
  solution_postconditions :: "Postcondition list"
  solution_metadata :: bag

record Instantiation =
  instantiation_domain :: string
  instantiation_concrete_problem :: string
  instantiation_concrete_solution :: string
  instantiation_mapping_notes :: string

record Pattern =
  pattern_id :: string
  pattern_name :: string
  pattern_description :: string
  pattern_problem :: Problem
  pattern_solution :: Solution
  pattern_instantiations :: "Instantiation list"
  pattern_related_patterns :: "string list"
  pattern_tags :: "string list"

section \<open>Floats\<close>

text \<open>
  A finite Python float is the rational number it denotes. \<open>float_div m n\<close> is
  \<^verbatim>\<open>m / n\<close> for two nonnegative integers with \<open>m \<le> n\<close>, as \<^verbatim>\<open>match\<close> divides: the
  binary64 number nearest the quotient, ties to even (53 significant bits, least exponent
  \<open>-1022\<close>). The divisor of \<^verbatim>\<open>match\<close> is never zero. \<open>bit_length\<close> is \<^verbatim>\<open>int.bit_length\<close>.
\<close>

fun bit_length :: "nat \<Rightarrow> nat" where
  "bit_length n = (if n = 0 then 0 else Suc (bit_length (n div 2)))"

declare bit_length.simps [simp del]

definition pow2 :: "int \<Rightarrow> rat" where
  "pow2 e = (if 0 \<le> e then 2 ^ nat e else 1 / 2 ^ nat (- e))"

definition round_half_even :: "rat \<Rightarrow> int" where
  "round_half_even k =
     (let f = \<lfloor>k\<rfloor>; r = k - of_int f
      in if r < 1 / 2 then f else if 1 / 2 < r then f + 1 else if even f then f else f + 1)"

definition float_div :: "nat \<Rightarrow> nat \<Rightarrow> rat" where
  "float_div m n =
     (if m = 0 \<or> n = 0 then 0
      else
        let q = of_nat m / of_nat n;
            d = int (bit_length m) - int (bit_length n);
            e = max (if pow2 d \<le> q then d else d - 1) (- 1022);
            ulp = pow2 (e - 52)
        in of_int (round_half_even (q / ulp)) * ulp)"

text \<open>The literal \<^verbatim>\<open>0.1\<close> is the float nearest one tenth.\<close>

definition zero_point_one :: rat where
  "zero_point_one = float_div 1 10"

text \<open>A threshold is any float, the infinities and NaN included; \<open>float_ge x t\<close> is
  \<^verbatim>\<open>x >= t\<close> for a finite \<open>x\<close>.\<close>

datatype pyfloat = Finite rat | PosInf | NegInf | NaN

fun float_ge :: "rat \<Rightarrow> pyfloat \<Rightarrow> bool" where
  "float_ge x (Finite t) = (t \<le> x)"
| "float_ge x PosInf = False"
| "float_ge x NegInf = True"
| "float_ge x NaN = False"

section \<open>The pattern store (store.py)\<close>

text \<open>
  The store is the dictionary \<^verbatim>\<open>_patterns\<close>, kept as an association list in insertion
  order: assigning to a key that is present replaces the value in place, assigning to a
  new key appends, which is \<^const>\<open>AList.update\<close>.
\<close>

type_synonym PatternStore = "(string \<times> Pattern) list"

record MatchResult =
  result_pattern :: Pattern
  score :: rat
  matched_features :: "string list"
  unmatched_preconditions :: "string list"

definition add :: "Pattern \<Rightarrow> PatternStore \<Rightarrow> PatternStore" where
  "add pattern st = AList.update (pattern_id pattern) pattern st"

definition get :: "PatternStore \<Rightarrow> string \<Rightarrow> Pattern option" where
  "get st key = map_of st key"

definition all_patterns :: "PatternStore \<Rightarrow> Pattern list" where
  "all_patterns st = map snd st"

text \<open>The body of the loop of \<^verbatim>\<open>match\<close>: the results one stored pattern appends.\<close>

definition match_pattern :: "string set \<Rightarrow> pyfloat \<Rightarrow> Pattern \<Rightarrow> MatchResult list" where
  "match_pattern problem_features threshold pattern =
     (let required = set (solution_preconditions (pattern_solution pattern)) in
      if required = {} then
        [\<lparr>result_pattern = pattern, score = zero_point_one, matched_features = [],
          unmatched_preconditions = []\<rparr>]
      else
        let matched = required \<inter> problem_features;
            unmatched = required - problem_features;
            sc = float_div (card matched) (card required)
        in if float_ge sc threshold then
             [\<lparr>result_pattern = pattern, score = sc,
               matched_features = sorted_list_of_set matched,
               unmatched_preconditions = sorted_list_of_set unmatched\<rparr>]
           else [])"

text \<open>
  \<^verbatim>\<open>match\<close> computes the structural features of the problem first, so it raises what the
  cycle check raises; its first argument is the number of nested calls of \<^verbatim>\<open>dfs\<close> the
  interpreter allows there. \<^verbatim>\<open>results.sort(key=lambda r: r.score, reverse=True)\<close> is a
  stable sort: results of equal score keep the order of the store. A stable ascending
  sort of the reversed list, reversed again, is that order.
\<close>

definition match :: "nat \<Rightarrow> PatternStore \<Rightarrow> Problem \<Rightarrow> pyfloat \<Rightarrow> error + MatchResult list" where
  "match n st problem threshold =
     bind_err (structural_features n problem) (\<lambda>features.
     let problem_features = set features \<union> set (problem_tags problem);
         results = concat (map (match_pattern problem_features threshold) (all_patterns st))
     in Inr (rev (sort_key score (rev results))))"

subsection \<open>Persisted records\<close>

text \<open>
  \<^verbatim>\<open>save\<close> writes \<^verbatim>\<open>json.dumps(data)\<close> and \<^verbatim>\<open>load\<close> reads it back with
  \<^verbatim>\<open>json.loads\<close>; the model passes the parsed document itself, a list of dicts. Each dict
  is a record with one field for each key that \<^verbatim>\<open>_dict_to_pattern\<close> reads, \<open>None\<close> when
  the key is absent, and the value under a present key has the JSON type of the annotation
  of the field it is stored in: a string, a list of strings, a bag, a list of dicts. The
  value of an enumeration is any string. A dict that is unpacked into a dataclass
  constructor (\<^verbatim>\<open>Entity(**e)\<close>) also lists the keys it has that name no field, and
  the goal dict, which is tested for emptiness, the keys it has that are not read. Other
  keys that are never read change nothing and are left out.
\<close>

record EntityDict =
  ed_id :: "string option"
  ed_type :: "string option"
  ed_properties :: "bag option"
  ed_unexpected :: "string list"

record RelationDict =
  rd_source :: "string option"
  rd_target :: "string option"
  rd_type :: "string option"
  rd_properties :: "bag option"
  rd_unexpected :: "string list"

record StructureDict =
  sd_entities :: "EntityDict list option"
  sd_relations :: "RelationDict list option"

record ConstraintDict =
  cd_predicate :: "string option"
  cd_over :: "string list option"
  cd_type :: "string option"

record GoalDict =
  gd_type :: "string option"
  gd_target :: "string option"
  gd_predicate :: "string option"
  gd_unread :: "string list"

text \<open>\<open>pd_goal\<close> is \<open>None\<close> when the key is absent or holds \<^verbatim>\<open>null\<close>.\<close>

record ProblemDict =
  pd_id :: "string option"
  pd_name :: "string option"
  pd_structure :: "StructureDict option"
  pd_constraints :: "ConstraintDict list option"
  pd_goal :: "GoalDict option"
  pd_tags :: "string list option"

text \<open>\<open>std_binds\<close> is \<open>None\<close> when the key is absent or holds \<^verbatim>\<open>null\<close>.\<close>

record StepDict =
  std_operation :: "string option"
  std_args :: "bag option"
  std_binds :: "string option"
  std_rationale :: "string option"

record TransformationDict =
  td_steps :: "StepDict list option"
  td_composition_type :: "string option"

record PostconditionDict =
  pcd_predicate :: "string option"
  pcd_guarantees :: "string option"

record SolutionDict =
  sold_id :: "string option"
  sold_name :: "string option"
  sold_preconditions :: "string list option"
  sold_transformation :: "TransformationDict option"
  sold_postconditions :: "PostconditionDict list option"

record InstantiationDict =
  ind_domain :: "string option"
  ind_concrete_problem :: "string option"
  ind_concrete_solution :: "string option"
  ind_mapping_notes :: "string option"
  ind_unexpected :: "string list"

record PatternDict =
  patd_id :: "string option"
  patd_name :: "string option"
  patd_description :: "string option"
  patd_problem :: "ProblemDict option"
  patd_solution :: "SolutionDict option"
  patd_instantiations :: "InstantiationDict list option"
  patd_related_patterns :: "string list option"
  patd_tags :: "string list option"

text \<open>\<^verbatim>\<open>d[key]\<close> and \<^verbatim>\<open>d.get(key, default)\<close>\<close>

definition get_item :: "string \<Rightarrow> 'a option \<Rightarrow> error + 'a" where
  "get_item key v = (case v of None \<Rightarrow> Inl (KeyError key) | Some x \<Rightarrow> Inr x)"

definition get_default :: "'a option \<Rightarrow> 'a \<Rightarrow> 'a" where
  "get_default v dflt = (case v of None \<Rightarrow> dflt | Some x \<Rightarrow> x)"

text \<open>The call of an enumeration class on a value: the member of that value, or
  \<^verbatim>\<open>ValueError\<close>.\<close>

definition ConstraintType_of :: "string \<Rightarrow> error + ConstraintType" where
  "ConstraintType_of v =
     (if v = ''invariant'' then Inr INVARIANT
      else if v = ''precondition'' then Inr PRECONDITION
      else if v = ''boundary'' then Inr BOUNDARY
      else Inl (ValueError v))"

definition GoalType_of :: "string \<Rightarrow> error + GoalType" where
  "GoalType_of v =
     (if v = ''find'' then Inr FIND
      else if v = ''transform'' then Inr GoalType.TRANSFORM
      else if v = ''prove'' then Inr PROVE
      else if v = ''optimize'' then Inr OPTIMIZE
      else if v = ''construct'' then Inr CONSTRUCT
      else Inl (ValueError v))"

definition Operation_of :: "string \<Rightarrow> error + Operation" where
  "Operation_of v =
     (if v = ''decompose'' then Inr DECOMPOSE
      else if v = ''compose'' then Inr COMPOSE
      else if v = ''transform'' then Inr Operation.TRANSFORM
      else if v = ''reduce'' then Inr REDUCE
      else if v = ''search'' then Inr SEARCH
      else if v = ''fix'' then Inr FIX
      else if v = ''dualize'' then Inr DUALIZE
      else if v = ''lift'' then Inr LIFT
      else if v = ''project'' then Inr PROJECT
      else if v = ''classify'' then Inr CLASSIFY
      else Inl (ValueError v))"

definition CompositionType_of :: "string \<Rightarrow> error + CompositionType" where
  "CompositionType_of v =
     (if v = ''sequential'' then Inr SEQUENTIAL
      else if v = ''parallel'' then Inr PARALLEL
      else if v = ''conditional'' then Inr CONDITIONAL
      else if v = ''iterative'' then Inr ITERATIVE
      else Inl (ValueError v))"

subsection \<open>\<^verbatim>\<open>_pattern_to_dict\<close>\<close>

definition entity_to_dict :: "Entity \<Rightarrow> EntityDict" where
  "entity_to_dict e =
     \<lparr>ed_id = Some (entity_id e), ed_type = Some (entity_type e),
      ed_properties = Some (entity_properties e), ed_unexpected = []\<rparr>"

definition relation_to_dict :: "Relation \<Rightarrow> RelationDict" where
  "relation_to_dict r =
     \<lparr>rd_source = Some (relation_source r), rd_target = Some (relation_target r),
      rd_type = Some (relation_type r), rd_properties = Some (relation_properties r),
      rd_unexpected = []\<rparr>"

definition constraint_to_dict :: "Constraint \<Rightarrow> ConstraintDict" where
  "constraint_to_dict c =
     \<lparr>cd_predicate = Some (constraint_predicate c), cd_over = Some (constraint_over c),
      cd_type = Some (ConstraintType_value (constraint_type c))\<rparr>"

text \<open>\<^verbatim>\<open>{...} if pattern.problem.goal else None\<close>\<close>

definition goal_to_dict :: "Goal option \<Rightarrow> GoalDict option" where
  "goal_to_dict g =
     (case g of
        None \<Rightarrow> None
      | Some g \<Rightarrow>
          Some \<lparr>gd_type = Some (GoalType_value (goal_type g)),
                gd_target = Some (goal_target g),
                gd_predicate = Some (goal_predicate g),
                gd_unread = []\<rparr>)"

definition problem_to_dict :: "Problem \<Rightarrow> ProblemDict" where
  "problem_to_dict p =
     \<lparr>pd_id = Some (problem_id p),
      pd_name = Some (problem_name p),
      pd_structure =
        Some \<lparr>sd_entities = Some (map entity_to_dict (entities (problem_structure p))),
              sd_relations = Some (map relation_to_dict (relations (problem_structure p)))\<rparr>,
      pd_constraints = Some (map constraint_to_dict (problem_constraints p)),
      pd_goal = goal_to_dict (problem_goal p),
      pd_tags = Some (problem_tags p)\<rparr>"

definition step_to_dict :: "Step \<Rightarrow> StepDict" where
  "step_to_dict s =
     \<lparr>std_operation = Some (Operation_value (step_operation s)),
      std_args = Some (step_args s),
      std_binds = step_binds s,
      std_rationale = Some (step_rationale s)\<rparr>"

definition postcondition_to_dict :: "Postcondition \<Rightarrow> PostconditionDict" where
  "postcondition_to_dict pc =
     \<lparr>pcd_predicate = Some (postcondition_predicate pc),
      pcd_guarantees = Some (postcondition_guarantees pc)\<rparr>"

text \<open>The solution is written without its \<^verbatim>\<open>metadata\<close>.\<close>

definition solution_to_dict :: "Solution \<Rightarrow> SolutionDict" where
  "solution_to_dict s =
     \<lparr>sold_id = Some (solution_id s),
      sold_name = Some (solution_name s),
      sold_preconditions = Some (solution_preconditions s),
      sold_transformation =
        Some \<lparr>td_steps = Some (map step_to_dict (transformation_steps (solution_transformation s))),
              td_composition_type =
                Some (CompositionType_value
                        (transformation_composition_type (solution_transformation s)))\<rparr>,
      sold_postconditions = Some (map postcondition_to_dict (solution_postconditions s))\<rparr>"

definition instantiation_to_dict :: "Instantiation \<Rightarrow> InstantiationDict" where
  "instantiation_to_dict i =
     \<lparr>ind_domain = Some (instantiation_domain i),
      ind_concrete_problem = Some (instantiation_concrete_problem i),
      ind_concrete_solution = Some (instantiation_concrete_solution i),
      ind_mapping_notes = Some (instantiation_mapping_notes i),
      ind_unexpected = []\<rparr>"

definition pattern_to_dict :: "Pattern \<Rightarrow> PatternDict" where
  "pattern_to_dict pattern =
     \<lparr>patd_id = Some (pattern_id pattern),
      patd_name = Some (pattern_name pattern),
      patd_description = Some (pattern_description pattern),
      patd_problem = Some (problem_to_dict (pattern_problem pattern)),
      patd_solution = Some (solution_to_dict (pattern_solution pattern)),
      patd_instantiations = Some (map instantiation_to_dict (pattern_instantiations pattern)),
      patd_related_patterns = Some (pattern_related_patterns pattern),
      patd_tags = Some (pattern_tags pattern)\<rparr>"

subsection \<open>\<^verbatim>\<open>_dict_to_pattern\<close>\<close>

text \<open>\<^verbatim>\<open>Entity(**e)\<close>: a key that names no field, or a field without default that is not
  given, is a \<^verbatim>\<open>TypeError\<close> of the constructor.\<close>

definition dict_to_entity :: "EntityDict \<Rightarrow> error + Entity" where
  "dict_to_entity e =
     (if ed_unexpected e \<noteq> [] then Inl (TypeError ''Entity'')
      else case (ed_id e, ed_type e) of
        (Some v_id, Some v_type) \<Rightarrow>
          Inr \<lparr>entity_id = v_id, entity_type = v_type,
               entity_properties = get_default (ed_properties e) []\<rparr>
      | _ \<Rightarrow> Inl (TypeError ''Entity''))"

definition dict_to_relation :: "RelationDict \<Rightarrow> error + Relation" where
  "dict_to_relation r =
     (if rd_unexpected r \<noteq> [] then Inl (TypeError ''Relation'')
      else case (rd_source r, rd_target r, rd_type r) of
        (Some v_source, Some v_target, Some v_type) \<Rightarrow>
          Inr \<lparr>relation_source = v_source, relation_target = v_target, relation_type = v_type,
               relation_properties = get_default (rd_properties r) []\<rparr>
      | _ \<Rightarrow> Inl (TypeError ''Relation''))"

definition dict_to_constraint :: "ConstraintDict \<Rightarrow> error + Constraint" where
  "dict_to_constraint c =
     bind_err (get_item ''predicate'' (cd_predicate c)) (\<lambda>v_predicate.
     bind_err (get_item ''over'' (cd_over c)) (\<lambda>v_over.
     bind_err (bind_err (get_item ''type'' (cd_type c)) ConstraintType_of) (\<lambda>v_type.
     Inr \<lparr>constraint_predicate = v_predicate, constraint_over = v_over,
          constraint_type = v_type\<rparr>)))"

text \<open>\<^verbatim>\<open>if prob_d.get("goal")\<close>: an absent key, \<^verbatim>\<open>null\<close> and the dict without any key are
  false.\<close>

definition dict_to_goal :: "GoalDict option \<Rightarrow> error + Goal option" where
  "dict_to_goal g =
     (case g of
        None \<Rightarrow> Inr None
      | Some g \<Rightarrow>
          if gd_type g = None \<and> gd_target g = None \<and> gd_predicate g = None
              \<and> gd_unread g = []
          then Inr None
          else
            bind_err (bind_err (get_item ''type'' (gd_type g)) GoalType_of) (\<lambda>v_type.
            bind_err (get_item ''target'' (gd_target g)) (\<lambda>v_target.
            bind_err (get_item ''predicate'' (gd_predicate g)) (\<lambda>v_predicate.
            Inr (Some \<lparr>goal_type = v_type, goal_target = v_target,
                       goal_predicate = v_predicate\<rparr>)))))"

definition dict_to_problem :: "ProblemDict \<Rightarrow> error + Problem" where
  "dict_to_problem prob_d =
     bind_err (bind_err (bind_err (get_item ''structure'' (pd_structure prob_d))
         (\<lambda>sd. get_item ''entities'' (sd_entities sd))) (map_err dict_to_entity)) (\<lambda>v_entities.
     bind_err (bind_err (bind_err (get_item ''structure'' (pd_structure prob_d))
         (\<lambda>sd. get_item ''relations'' (sd_relations sd))) (map_err dict_to_relation))
         (\<lambda>v_relations.
     bind_err (map_err dict_to_constraint (get_default (pd_constraints prob_d) []))
         (\<lambda>v_constraints.
     bind_err (dict_to_goal (pd_goal prob_d)) (\<lambda>v_goal.
     bind_err (get_item ''id'' (pd_id prob_d)) (\<lambda>v_id.
     bind_err (get_item ''name'' (pd_name prob_d)) (\<lambda>v_name.
     Inr \<lparr>problem_id = v_id, problem_name = v_name,
          problem_structure = \<lparr>entities = v_entities, relations = v_relations\<rparr>,
          problem_constraints = v_constraints, problem_goal = v_goal,
          problem_tags = get_default (pd_tags prob_d) []\<rparr>))))))"

definition dict_to_step :: "StepDict \<Rightarrow> error + Step" where
  "dict_to_step s =
     bind_err (bind_err (get_item ''operation'' (std_operation s)) Operation_of) (\<lambda>v_operation.
     Inr \<lparr>step_operation = v_operation, step_args = get_default (std_args s) [],
          step_binds = std_binds s, step_rationale = get_default (std_rationale s) []\<rparr>)"

definition dict_to_postcondition :: "PostconditionDict \<Rightarrow> error + Postcondition" where
  "dict_to_postcondition pc =
     bind_err (get_item ''predicate'' (pcd_predicate pc)) (\<lambda>v_predicate.
     bind_err (get_item ''guarantees'' (pcd_guarantees pc)) (\<lambda>v_guarantees.
     Inr \<lparr>postcondition_predicate = v_predicate, postcondition_guarantees = v_guarantees\<rparr>))"

text \<open>\<^verbatim>\<open>Solution(...)\<close> is called without \<^verbatim>\<open>metadata\<close>, which takes its default, the empty
  dict.\<close>

definition dict_to_solution :: "SolutionDict \<Rightarrow> error + Solution" where
  "dict_to_solution sol_d =
     bind_err (bind_err (bind_err (get_item ''transformation'' (sold_transformation sol_d))
         (\<lambda>td. get_item ''steps'' (td_steps td))) (map_err dict_to_step)) (\<lambda>v_steps.
     bind_err (bind_err (get_item ''transformation'' (sold_transformation sol_d))
         (\<lambda>td. CompositionType_of (get_default (td_composition_type td) ''sequential'')))
         (\<lambda>v_composition_type.
     bind_err (map_err dict_to_postcondition (get_default (sold_postconditions sol_d) []))
         (\<lambda>v_postconditions.
     bind_err (get_item ''id'' (sold_id sol_d)) (\<lambda>v_id.
     bind_err (get_item ''name'' (sold_name sol_d)) (\<lambda>v_name.
     Inr \<lparr>solution_id = v_id, solution_name = v_name,
          solution_preconditions = get_default (sold_preconditions sol_d) [],
          solution_transformation =
            \<lparr>transformation_steps = v_steps,
             transformation_composition_type = v_composition_type\<rparr>,
          solution_postconditions = v_postconditions,
          solution_metadata = []\<rparr>)))))"

definition dict_to_instantiation :: "InstantiationDict \<Rightarrow> error + Instantiation" where
  "dict_to_instantiation i =
     (if ind_unexpected i \<noteq> [] then Inl (TypeError ''Instantiation'')
      else case (ind_domain i, ind_concrete_problem i, ind_concrete_solution i) of
        (Some v_domain, Some v_concrete_problem, Some v_concrete_solution) \<Rightarrow>
          Inr \<lparr>instantiation_domain = v_domain,
               instantiation_concrete_problem = v_concrete_problem,
               instantiation_concrete_solution = v_concrete_solution,
               instantiation_mapping_notes = get_default (ind_mapping_notes i) []\<rparr>
      | _ \<Rightarrow> Inl (TypeError ''Instantiation''))"

definition dict_to_pattern :: "PatternDict \<Rightarrow> error + Pattern" where
  "dict_to_pattern d =
     bind_err (bind_err (get_item ''problem'' (patd_problem d)) dict_to_problem) (\<lambda>v_problem.
     bind_err (bind_err (get_item ''solution'' (patd_solution d)) dict_to_solution)
         (\<lambda>v_solution.
     bind_err (map_err dict_to_instantiation (get_default (patd_instantiations d) []))
         (\<lambda>v_instantiations.
     bind_err (get_item ''id'' (patd_id d)) (\<lambda>v_id.
     bind_err (get_item ''name'' (patd_name d)) (\<lambda>v_name.
     bind_err (get_item ''description'' (patd_description d)) (\<lambda>v_description.
     Inr \<lparr>pattern_id = v_id, pattern_name = v_name, pattern_description = v_description,
          pattern_problem = v_problem, pattern_solution = v_solution,
          pattern_instantiations = v_instantiations,
          pattern_related_patterns = get_default (patd_related_patterns d) [],
          pattern_tags = get_default (patd_tags d) []\<rparr>))))))"

subsection \<open>\<^verbatim>\<open>save\<close> and \<^verbatim>\<open>load\<close>\<close>

definition save :: "PatternStore \<Rightarrow> PatternDict list" where
  "save st = map pattern_to_dict (all_patterns st)"

text \<open>
  \<^verbatim>\<open>load\<close> assigns each decoded pattern to the dictionary as soon as it is decoded. The
  result is the store after the call together with the exception that ended it, if any.
\<close>

fun load :: "PatternDict list \<Rightarrow> PatternStore \<Rightarrow> PatternStore \<times> error option" where
  "load [] st = (st, None)"
| "load (item # items) st =
     (case dict_to_pattern item of
        Inl e \<Rightarrow> (st, Some e)
      | Inr pattern \<Rightarrow> load items (AList.update (pattern_id pattern) pattern st))"

text \<open>The keys of a store built by \<open>add\<close> and \<open>load\<close> are the identifiers of its
  patterns, each once. \<open>without_metadata\<close> is a pattern with the metadata of its solution
  emptied.\<close>

definition store_ok :: "PatternStore \<Rightarrow> bool" where
  "store_ok st =
     (distinct (map fst st) \<and> list_all (\<lambda>kp. fst kp = pattern_id (snd kp)) st)"

definition without_metadata :: "Pattern \<Rightarrow> Pattern" where
  "without_metadata p = p\<lparr>pattern_solution := (pattern_solution p)\<lparr>solution_metadata := []\<rparr>\<rparr>"

section \<open>Domain mapping (mapping.py)\<close>

text \<open>The two label dictionaries are association lists in insertion order; the dict
  comprehension \<^verbatim>\<open>{v: k for k, v in d.items()}\<close> assigns the entries in that order, a later
  one overwriting an earlier one of the same key.\<close>

record DomainMapping =
  mapping_domain :: string
  type_map :: "(string \<times> string) list"
  operation_map :: "(string \<times> string) list"
  mapping_axioms :: bag

definition inverse_type_map :: "DomainMapping \<Rightarrow> (string \<times> string) list" where
  "inverse_type_map m = fold (\<lambda>kv d. AList.update (snd kv) (fst kv) d) (type_map m) []"

definition inverse_operation_map :: "DomainMapping \<Rightarrow> (string \<times> string) list" where
  "inverse_operation_map m =
     fold (\<lambda>kv d. AList.update (snd kv) (fst kv) d) (operation_map m) []"

definition instantiate :: "Solution \<Rightarrow> DomainMapping \<Rightarrow> bag list" where
  "instantiate solution mapping =
     (let inv_ops = inverse_operation_map mapping in
      map (\<lambda>step.
             let concrete_op =
                   (case map_of inv_ops (Operation_value (step_operation step)) of
                      None \<Rightarrow> Operation_value (step_operation step)
                    | Some c \<Rightarrow> c)
             in [(''operation'', JStr concrete_op),
                 (''abstract_operation'', JStr (Operation_value (step_operation step))),
                 (''args'', JObj (step_args step)),
                 (''binds'', (case step_binds step of None \<Rightarrow> JNull | Some b \<Rightarrow> JStr b)),
                 (''rationale'', JStr (step_rationale step)),
                 (''domain'', JStr (mapping_domain mapping))])
          (transformation_steps (solution_transformation solution)))"

section \<open>Graph notions for the cycle check\<close>

text \<open>The edge relation of an adjacency dictionary and of a structure, and the property
  the cycle check decides: some listed entity reaches a node that lies on a directed
  cycle.\<close>

definition edges_of :: "adjacency \<Rightarrow> (string \<times> string) set" where
  "edges_of adj = {(x, y). y \<in> set (adj_get adj x)}"

definition edge_set :: "Structure \<Rightarrow> (string \<times> string) set" where
  "edge_set s = (\<lambda>r. (relation_source r, relation_target r)) ` set (relations s)"

definition cycle_from :: "(string \<times> string) set \<Rightarrow> string \<Rightarrow> bool" where
  "cycle_from E u = (\<exists>x. (u, x) \<in> E\<^sup>* \<and> (x, x) \<in> E\<^sup>+)"

definition cycle_reachable :: "Structure \<Rightarrow> bool" where
  "cycle_reachable s = (\<exists>e \<in> set (entities s). cycle_from (edge_set s) (entity_id e))"

text \<open>The finished nodes (visited and off the stack) are closed under the edges and lie
  on no cycle.\<close>

definition finished_ok :: "(string \<times> string) set \<Rightarrow> string set \<Rightarrow> bool" where
  "finished_ok E D =
     ((\<forall>x y. x \<in> D \<and> (x, y) \<in> E \<longrightarrow> y \<in> D) \<and> (\<forall>x. x \<in> D \<longrightarrow> (x, x) \<notin> E\<^sup>+))"

definition dfs_inv :: "string set \<Rightarrow> adjacency \<Rightarrow> nat \<Rightarrow> dfs_state \<Rightarrow> bool" where
  "dfs_inv N adj n st =
     (finite N \<and> (\<forall>x. set (adj_get adj x) \<subseteq> N) \<and> snd st \<subseteq> fst st
      \<and> finished_ok (edges_of adj) (fst st - snd st) \<and> card (N - fst st) \<le> n)"

definition dfs_post :: "(string \<times> string) set \<Rightarrow> string \<Rightarrow> dfs_state \<Rightarrow> string set
    \<Rightarrow> error + (bool \<times> dfs_state) \<Rightarrow> bool" where
  "dfs_post E u st X r =
     (\<exists>b V' S'. r = Inr (b, (V', S')) \<and>
        (if b then cycle_from E u
         else S' = snd st \<and> fst st \<subseteq> V' \<and> X \<subseteq> V' - S' \<and> finished_ok E (V' - S')))"

section \<open>Example values\<close>

text \<open>A problem over the empty structure with the given tags, and a pattern with the given
  identifier, precondition list and solution metadata.\<close>

definition example_problem :: "string list \<Rightarrow> Problem" where
  "example_problem tags =
     \<lparr>problem_id = ''q'', problem_name = ''query'',
      problem_structure = \<lparr>entities = [], relations = []\<rparr>,
      problem_constraints = [], problem_goal = None, problem_tags = tags\<rparr>"

definition example_pattern :: "string \<Rightarrow> string list \<Rightarrow> bag \<Rightarrow> Pattern" where
  "example_pattern pid preconditions metadata =
     \<lparr>pattern_id = pid, pattern_name = ''n'', pattern_description = ''d'',
      pattern_problem = example_problem [],
      pattern_solution =
        \<lparr>solution_id = ''s'', solution_name = ''k'', solution_preconditions = preconditions,
         solution_transformation =
           \<lparr>transformation_steps = [], transformation_composition_type = SEQUENTIAL\<rparr>,
         solution_postconditions = [], solution_metadata = metadata\<rparr>,
      pattern_instantiations = [], pattern_related_patterns = [], pattern_tags = []\<rparr>"



text \<open>
  Structures over the nodes \<open>node 0\<close>, \<open>node 1\<close>, ... with the one entity \<open>node 0\<close>.
  \<open>chain_structure k\<close> is the path of \<open>k\<close> edges from \<open>node 0\<close> to \<open>node k\<close>. The two
  fan structures add an edge from \<open>node 0\<close> to each of \<open>node k\<close>, ..., \<open>node 2\<close>: after
  the edges of the path in \<open>fan_chain\<close>, before them in \<open>fan_first\<close>.
\<close>

definition node :: "nat \<Rightarrow> string" where
  "node k = replicate k (CHR ''x'')"

definition edge :: "nat \<Rightarrow> nat \<Rightarrow> Relation" where
  "edge i j =
     \<lparr>relation_source = node i, relation_target = node j, relation_type = ''next'',
      relation_properties = []\<rparr>"

definition chain_edges :: "nat \<Rightarrow> Relation list" where
  "chain_edges k = map (\<lambda>i. edge i (Suc i)) [0..<k]"

definition fan_edges :: "nat \<Rightarrow> Relation list" where
  "fan_edges k = map (\<lambda>j. edge 0 j) (rev [2..<Suc k])"

definition root_entity :: Entity where
  "root_entity = \<lparr>entity_id = node 0, entity_type = ''t'', entity_properties = []\<rparr>"

definition chain_structure :: "nat \<Rightarrow> Structure" where
  "chain_structure k = \<lparr>entities = [root_entity], relations = chain_edges k\<rparr>"

definition fan_chain :: "nat \<Rightarrow> Structure" where
  "fan_chain k = \<lparr>entities = [root_entity], relations = chain_edges k @ fan_edges k\<rparr>"

definition fan_first :: "nat \<Rightarrow> Structure" where
  "fan_first k = \<lparr>entities = [root_entity], relations = fan_edges k @ chain_edges k\<rparr>"

definition chain_problem :: "nat \<Rightarrow> Problem" where
  "chain_problem k =
     \<lparr>problem_id = ''q'', problem_name = ''query'', problem_structure = chain_structure k,
      problem_constraints = [], problem_goal = None, problem_tags = []\<rparr>"


section \<open>Correctness of the cycle search\<close>

lemma finished_closed:
  "(x, y) \<in> E\<^sup>* \<Longrightarrow> finished_ok E D \<Longrightarrow> x \<in> D \<Longrightarrow> y \<in> D"
  by (induction rule: rtrancl_induct) (auto simp: finished_ok_def)

lemma finished_insert:
  assumes ok: "finished_ok E D" and u: "u \<notin> D" and succ: "\<And>y. (u, y) \<in> E \<Longrightarrow> y \<in> D"
  shows "finished_ok E (insert u D)"
proof -
  have "(u, u) \<notin> E\<^sup>+"
  proof
    assume "(u, u) \<in> E\<^sup>+"
    then obtain y where "(u, y) \<in> E" "(y, u) \<in> E\<^sup>*"
      by (meson tranclD)
    with succ ok have "u \<in> D" using finished_closed by blast
    with u show False by simp
  qed
  with ok succ show ?thesis by (auto simp: finished_ok_def)
qed

lemma dfs_post_step:
  assumes "dfs_post E u (V', S) X r" and "V \<subseteq> V'" and "nb \<in> V'" and "nb \<notin> S"
  shows "dfs_post E u (V, S) (insert nb X) r"
proof -
  from assms(1) obtain b V'' S'' where r: "r = Inr (b, (V'', S''))"
    and post: "if b then cycle_from E u
       else S'' = S \<and> V' \<subseteq> V'' \<and> X \<subseteq> V'' - S'' \<and> finished_ok E (V'' - S'')"
    unfolding dfs_post_def fst_conv snd_conv by blast
  show ?thesis
  proof (cases b)
    case True
    with r post show ?thesis unfolding dfs_post_def by auto
  next
    case False
    with post have "S'' = S" "V' \<subseteq> V''" "X \<subseteq> V'' - S''" "finished_ok E (V'' - S'')"
      by auto
    with assms(2-4) have "S'' = snd (V, S) \<and> fst (V, S) \<subseteq> V'' \<and> insert nb X \<subseteq> V'' - S''
        \<and> finished_ok E (V'' - S'')"
      by auto
    with r False show ?thesis unfolding dfs_post_def by auto
  qed
qed

lemma dfs_correct:
  "dfs_inv N adj n st \<Longrightarrow> u \<in> N \<Longrightarrow> u \<notin> fst st
     \<Longrightarrow> \<forall>s\<in>snd st. (s, u) \<in> (edges_of adj)\<^sup>*
     \<Longrightarrow> dfs_post (edges_of adj) u st {u} (dfs n adj u st)"
  and
  "\<forall>u. dfs_inv N adj n st \<longrightarrow> u \<in> snd st \<longrightarrow> set nbs \<subseteq> set (adj_get adj u)
     \<longrightarrow> (\<forall>s\<in>snd st. (s, u) \<in> (edges_of adj)\<^sup>*)
     \<longrightarrow> dfs_post (edges_of adj) u st (set nbs) (dfs_loop n adj nbs st)"
proof (induction n adj u st and n adj nbs st rule: dfs_dfs_loop.induct)
  case (1 adj node st)
  then have "finite (N - fst st)" "node \<in> N - fst st" "card (N - fst st) = 0"
    by (auto simp: dfs_inv_def)
  then show ?case by auto
next
  case (2 n adj node V S)
  let ?E = "edges_of adj"
  from "2.prems" have inv: "dfs_inv N adj (Suc n) (V, S)" and nN: "node \<in> N" and nV: "node \<notin> V"
    and stack: "\<forall>s\<in>S. (s, node) \<in> ?E\<^sup>*" by simp_all
  from inv have SV: "S \<subseteq> V" and fin: "finite N" by (simp_all add: dfs_inv_def)
  from nV SV have nS: "node \<notin> S" by blast
  have eq: "insert node V - insert node S = V - S" using nV by blast
  have "card (N - insert node V) < card (N - V)"
    using fin nN nV by (intro psubset_card_mono) auto
  with inv have inv': "dfs_inv N adj n (insert node V, insert node S)"
    by (auto simp: dfs_inv_def eq)
  have stack': "\<forall>s\<in>insert node S. (s, node) \<in> ?E\<^sup>*" using stack by simp
  have "dfs_post ?E node (insert node V, insert node S) (set (adj_get adj node))
          (dfs_loop n adj (adj_get adj node) (insert node V, insert node S))"
    using inv' stack' by (intro "2.IH" [rule_format]) auto
  then obtain b V' S' where
    res: "dfs_loop n adj (adj_get adj node) (insert node V, insert node S) = Inr (b, (V', S'))"
    and post: "if b then cycle_from ?E node
       else S' = insert node S \<and> insert node V \<subseteq> V' \<and> set (adj_get adj node) \<subseteq> V' - S'
            \<and> finished_ok ?E (V' - S')"
    unfolding dfs_post_def fst_conv snd_conv by blast
  show ?case
  proof (cases b)
    case True
    with res post show ?thesis by (auto simp: dfs_post_def)
  next
    case False
    with post have S': "S' = insert node S" and VV: "insert node V \<subseteq> V'"
      and succ: "set (adj_get adj node) \<subseteq> V' - S'" and ok: "finished_ok ?E (V' - S')"
      by auto
    have D: "V' - (S' - {node}) = insert node (V' - S')" using S' VV nS by auto
    have "finished_ok ?E (insert node (V' - S'))"
    proof (rule finished_insert [OF ok])
      show "node \<notin> V' - S'" using S' by simp
      fix y assume "(node, y) \<in> ?E"
      then show "y \<in> V' - S'" using succ by (auto simp: edges_of_def)
    qed
    moreover have "dfs (Suc n) adj node (V, S) = Inr (False, (V', S' - {node}))"
      using False res by simp
    ultimately show ?thesis
      unfolding dfs_post_def using S' VV nS D by auto
  qed
next
  case (3 n adj st)
  have "dfs_inv N adj n st \<Longrightarrow> dfs_post (edges_of adj) u st (set []) (dfs_loop n adj [] st)" for u
    unfolding dfs_post_def dfs_inv_def by (cases st) auto
  then show ?case by blast
next
  case (4 n adj nb rest V S)
  let ?E = "edges_of adj"
  show ?case
  proof (intro allI impI)
    fix u
    assume inv: "dfs_inv N adj n (V, S)" and uS: "u \<in> snd (V, S)"
      and sub: "set (nb # rest) \<subseteq> set (adj_get adj u)"
      and stack: "\<forall>s\<in>snd (V, S). (s, u) \<in> ?E\<^sup>*"
    from sub have edge: "(u, nb) \<in> ?E" and sub': "set rest \<subseteq> set (adj_get adj u)"
      by (auto simp: edges_of_def)
    from inv sub have nbN: "nb \<in> N" by (auto simp: dfs_inv_def)
    show "dfs_post ?E u (V, S) (set (nb # rest)) (dfs_loop n adj (nb # rest) (V, S))"
    proof (cases "nb \<in> S")
      case True
      with stack have "(nb, u) \<in> ?E\<^sup>*" by simp
      with edge have "(u, u) \<in> ?E\<^sup>+" by (rule rtrancl_into_trancl2)
      then have "cycle_from ?E u" unfolding cycle_from_def by blast
      with True show ?thesis by (auto simp: dfs_post_def)
    next
      case nbS: False
      show ?thesis
      proof (cases "nb \<in> V")
        case True
        have "dfs_post ?E u (V, S) (set rest) (dfs_loop n adj rest (V, S))"
          using nbS True inv uS sub' stack by (intro "4.IH"(3) [rule_format]) auto
        then have "dfs_post ?E u (V, S) (insert nb (set rest)) (dfs_loop n adj rest (V, S))"
          using True nbS by (intro dfs_post_step) auto
        with True nbS show ?thesis by simp
      next
        case nbV: False
        have stack_nb: "\<forall>s\<in>snd (V, S). (s, nb) \<in> ?E\<^sup>*"
        proof
          fix s assume "s \<in> snd (V, S)"
          with stack have "(s, u) \<in> ?E\<^sup>*" by blast
          with edge show "(s, nb) \<in> ?E\<^sup>*" by (rule rtrancl_into_rtrancl [rotated])
        qed
        have "dfs_post ?E nb (V, S) {nb} (dfs n adj nb (V, S))"
          using nbS nbV inv nbN stack_nb by (intro "4.IH"(1)) auto
        then obtain b V' S' where res: "dfs n adj nb (V, S) = Inr (b, (V', S'))"
          and post: "if b then cycle_from ?E nb
             else S' = S \<and> V \<subseteq> V' \<and> {nb} \<subseteq> V' - S' \<and> finished_ok ?E (V' - S')"
          unfolding dfs_post_def fst_conv snd_conv by blast
        show ?thesis
        proof (cases b)
          case True
          with post obtain x where "(nb, x) \<in> ?E\<^sup>*" "(x, x) \<in> ?E\<^sup>+"
            by (auto simp: cycle_from_def)
          with edge have "(u, x) \<in> ?E\<^sup>*" by (simp add: converse_rtrancl_into_rtrancl)
          with \<open>(x, x) \<in> ?E\<^sup>+\<close> have "cycle_from ?E u"
            unfolding cycle_from_def by blast
          with True res nbS nbV show ?thesis by (auto simp: dfs_post_def)
        next
          case False
          with post have S': "S' = S" and VV: "V \<subseteq> V'" and nb': "nb \<in> V' - S"
            and ok: "finished_ok ?E (V' - S)" by auto
          have "card (N - V') \<le> card (N - V)"
            using inv VV by (intro card_mono) (auto simp: dfs_inv_def)
          with inv VV ok have inv': "dfs_inv N adj n (V', S)"
            by (auto simp: dfs_inv_def)
          have stack2: "\<forall>s\<in>snd (V', S). (s, u) \<in> ?E\<^sup>*" using stack by simp
          have uS2: "u \<in> snd (V', S)" using uS by simp
          have "dfs_post ?E u (V', S) (set rest) (dfs_loop n adj rest (V', S))"
            using nbS nbV res False S' inv' uS2 sub' stack2
            by (intro "4.IH"(2) [rule_format, of _ b]) auto
          then have "dfs_post ?E u (V, S) (insert nb (set rest)) (dfs_loop n adj rest (V', S))"
            using VV nb' by (intro dfs_post_step) auto
          moreover have "dfs_loop n adj (nb # rest) (V, S) = dfs_loop n adj rest (V', S)"
            using False res nbS nbV S' by simp
          ultimately show ?thesis by simp
        qed
      qed
    qed
  qed
qed


lemma adj_get_add_edge:
  "adj_get (add_edge r adj) x =
     adj_get adj x @ (if relation_source r = x then [relation_target r] else [])"
  by (simp add: adj_get_def add_edge_def split: option.splits)

lemma adj_get_fold_add_edge:
  "adj_get (fold add_edge rs adj) x =
     adj_get adj x @ map relation_target (filter (\<lambda>r. relation_source r = x) rs)"
  by (induction rs arbitrary: adj) (simp_all add: adj_get_add_edge)

lemma adj_get_fold_init:
  "adj_get adj x = [] \<Longrightarrow> adj_get (fold (\<lambda>e adj. adj(entity_id e \<mapsto> [])) es adj) x = []"
  by (induction es arbitrary: adj) (simp_all add: adj_get_def)

lemma adj_get_build_adj:
  "adj_get (build_adj s) x = map relation_target (filter (\<lambda>r. relation_source r = x) (relations s))"
proof -
  have "adj_get (fold (\<lambda>e adj. adj(entity_id e \<mapsto> [])) (entities s) Map.empty) x = []"
    by (rule adj_get_fold_init) (simp add: adj_get_def)
  then show ?thesis by (simp add: build_adj_def adj_get_fold_add_edge)
qed

lemma edges_of_build_adj: "edges_of (build_adj s) = edge_set s"
  by (auto simp: edges_of_def edge_set_def adj_get_build_adj)

lemma dfs_roots_correct:
  "dfs_inv N adj n (V, {}) \<Longrightarrow> entity_id ` set es \<subseteq> N \<Longrightarrow>
   \<exists>b. dfs_roots n adj es (V, {}) = Inr b
     \<and> (b \<longrightarrow> (\<exists>e \<in> set es. cycle_from (edges_of adj) (entity_id e)))
     \<and> (\<not> b \<longrightarrow> (\<exists>V'. V \<subseteq> V' \<and> entity_id ` set es \<subseteq> V' \<and> finished_ok (edges_of adj) V'))"
proof (induction es arbitrary: V)
  case Nil
  then show ?case by (auto simp: dfs_inv_def)
next
  case (Cons e es)
  let ?E = "edges_of adj"
  from Cons.prems have inv: "dfs_inv N adj n (V, {})" and eN: "entity_id e \<in> N"
    and esN: "entity_id ` set es \<subseteq> N" by simp_all
  show ?case
  proof (cases "entity_id e \<in> V")
    case True
    from Cons.IH [OF inv esN] obtain b where
      run: "dfs_roots n adj es (V, {}) = Inr b"
      and yes: "b \<longrightarrow> (\<exists>e \<in> set es. cycle_from ?E (entity_id e))"
      and no: "\<not> b \<longrightarrow> (\<exists>V'. V \<subseteq> V' \<and> entity_id ` set es \<subseteq> V' \<and> finished_ok ?E V')"
      by blast
    from True run have "dfs_roots n adj (e # es) (V, {}) = Inr b" by simp
    moreover from yes have "b \<longrightarrow> (\<exists>e' \<in> set (e # es). cycle_from ?E (entity_id e'))" by auto
    moreover from no True
    have "\<not> b \<longrightarrow> (\<exists>V'. V \<subseteq> V' \<and> entity_id ` set (e # es) \<subseteq> V' \<and> finished_ok ?E V')"
      by auto
    ultimately show ?thesis by blast
  next
    case False
    have "dfs_post ?E (entity_id e) (V, {}) {entity_id e} (dfs n adj (entity_id e) (V, {}))"
      using inv eN False by (intro dfs_correct(1) [where N = N]) auto
    then obtain b V' S' where res: "dfs n adj (entity_id e) (V, {}) = Inr (b, (V', S'))"
      and post: "if b then cycle_from ?E (entity_id e)
         else S' = {} \<and> V \<subseteq> V' \<and> {entity_id e} \<subseteq> V' - S' \<and> finished_ok ?E (V' - S')"
      unfolding dfs_post_def fst_conv snd_conv by blast
    show ?thesis
    proof (cases b)
      case True
      with res False have "dfs_roots n adj (e # es) (V, {}) = Inr True" by simp
      moreover from True post have "\<exists>e' \<in> set (e # es). cycle_from ?E (entity_id e')" by simp
      ultimately show ?thesis by blast
    next
      case nob: False
      with post have S': "S' = {}" and VV: "V \<subseteq> V'" and eV: "entity_id e \<in> V'"
        and ok: "finished_ok ?E V'" by auto
      have "card (N - V') \<le> card (N - V)"
        using inv VV by (intro card_mono) (auto simp: dfs_inv_def)
      with inv ok have inv': "dfs_inv N adj n (V', {})" by (auto simp: dfs_inv_def)
      from Cons.IH [OF inv' esN] obtain c where
        run: "dfs_roots n adj es (V', {}) = Inr c"
        and yes: "c \<longrightarrow> (\<exists>e \<in> set es. cycle_from ?E (entity_id e))"
        and no: "\<not> c \<longrightarrow> (\<exists>V''. V' \<subseteq> V'' \<and> entity_id ` set es \<subseteq> V'' \<and> finished_ok ?E V'')"
        by blast
      from False res nob S' run have "dfs_roots n adj (e # es) (V, {}) = Inr c" by simp
      moreover from yes have "c \<longrightarrow> (\<exists>e' \<in> set (e # es). cycle_from ?E (entity_id e'))" by auto
      moreover
      have "\<not> c \<longrightarrow> (\<exists>V''. V \<subseteq> V'' \<and> entity_id ` set (e # es) \<subseteq> V'' \<and> finished_ok ?E V'')"
      proof
        assume "\<not> c"
        with no obtain V'' where sup: "V' \<subseteq> V''" and ids: "entity_id ` set es \<subseteq> V''"
          and ok'': "finished_ok ?E V''" by blast
        from sup VV eV ids have "V \<subseteq> V''" "entity_id ` set (e # es) \<subseteq> V''" by auto
        with ok'' show "\<exists>V''. V \<subseteq> V'' \<and> entity_id ` set (e # es) \<subseteq> V'' \<and> finished_ok ?E V''"
          by blast
      qed
      ultimately show ?thesis by blast
    qed
  qed
qed

lemma check_cycle_total:
  assumes "length (node_ids s) \<le> n"
  shows "check_cycle n s = Inr (cycle_reachable s)"
proof (cases "relations s = []")
  case True
  then have "edge_set s = {}" by (simp add: edge_set_def)
  then have "\<not> cycle_reachable s" by (simp add: cycle_reachable_def cycle_from_def)
  with True show ?thesis by (simp add: check_cycle_def)
next
  case False
  let ?N = "set (node_ids s)" and ?adj = "build_adj s"
  have "card ?N \<le> length (node_ids s)" by (rule card_length)
  with assms have "card (?N - {}) \<le> n" by simp
  moreover have "set (adj_get ?adj x) \<subseteq> ?N" for x
    by (auto simp: adj_get_build_adj node_ids_def)
  ultimately have inv: "dfs_inv ?N ?adj n ({}, {})"
    by (simp add: dfs_inv_def finished_ok_def)
  have ids: "entity_id ` set (entities s) \<subseteq> ?N" by (auto simp: node_ids_def)
  from dfs_roots_correct [OF inv ids] obtain b where
    run: "dfs_roots n ?adj (entities s) ({}, {}) = Inr b"
    and yes: "b \<longrightarrow> (\<exists>e \<in> set (entities s). cycle_from (edge_set s) (entity_id e))"
    and no: "\<not> b \<longrightarrow> (\<exists>V'. entity_id ` set (entities s) \<subseteq> V' \<and> finished_ok (edge_set s) V')"
    unfolding edges_of_build_adj by blast
  have "b = cycle_reachable s"
  proof (cases b)
    case True
    with yes show ?thesis by (auto simp: cycle_reachable_def)
  next
    case nob: False
    with no obtain V' where V': "entity_id ` set (entities s) \<subseteq> V'" "finished_ok (edge_set s) V'"
      by blast
    have "\<not> cycle_reachable s"
    proof
      assume "cycle_reachable s"
      then obtain e x where e: "e \<in> set (entities s)"
        and reach: "(entity_id e, x) \<in> (edge_set s)\<^sup>*" and cyc: "(x, x) \<in> (edge_set s)\<^sup>+"
        by (auto simp: cycle_reachable_def cycle_from_def)
      from e V'(1) have "entity_id e \<in> V'" by auto
      with reach V'(2) have "x \<in> V'" by (rule finished_closed)
      with V'(2) cyc show False by (simp add: finished_ok_def)
    qed
    with nob show ?thesis by simp
  qed
  with run False show ?thesis by (simp add: check_cycle_def)
qed



subsection \<open>More depth changes no answer\<close>

lemma dfs_mono:
  "dfs n adj u st = Inr r \<Longrightarrow> dfs (n + k) adj u st = Inr r"
  "dfs_loop n adj nbs st = Inr r \<Longrightarrow> dfs_loop (n + k) adj nbs st = Inr r"
proof (induction n adj u st and n adj nbs st arbitrary: r and r rule: dfs_dfs_loop.induct)
  case (1 adj node st)
  then show ?case by simp
next
  case (2 n adj node V S)
  from "2.prems" obtain r' where
    loop: "dfs_loop n adj (adj_get adj node) (insert node V, insert node S) = Inr r'"
    by (auto split: sum.splits)
  from "2.IH" [OF loop] have "dfs_loop (n + k) adj (adj_get adj node) (insert node V, insert node S) = Inr r'" .
  with loop "2.prems" show ?case by simp
next
  case (3 n adj st)
  then show ?case by simp
next
  case (4 n adj nb rest V S)
  show ?case
  proof (cases "nb \<in> S")
    case True
    with "4.prems" show ?thesis by simp
  next
    case nbS: False
    show ?thesis
    proof (cases "nb \<in> V")
      case True
      with nbS "4.prems" have "dfs_loop n adj rest (V, S) = Inr r" by simp
      from "4.IH"(3) [OF nbS _ this] True nbS show ?thesis by simp
    next
      case nbV: False
      from "4.prems" nbS nbV obtain b st' where
        call: "dfs n adj nb (V, S) = Inr (b, st')"
        by (auto split: sum.splits)
      from "4.IH"(1) [OF nbS nbV call] have call': "dfs (n + k) adj nb (V, S) = Inr (b, st')" .
      show ?thesis
      proof (cases b)
        case True
        with call nbS nbV "4.prems" have "r = (True, st')" by simp
        with call' True nbS nbV show ?thesis by simp
      next
        case False
        then have bF: "b = False" by simp
        with call nbS nbV "4.prems" have "dfs_loop n adj rest st' = Inr r" by simp
        from "4.IH"(2) [OF nbS nbV call refl bF this]
        have "dfs_loop (n + k) adj rest st' = Inr r" .
        with call' False nbS nbV show ?thesis by simp
      qed
    qed
  qed
qed

lemma dfs_roots_mono:
  "dfs_roots n adj es st = Inr b \<Longrightarrow> dfs_roots (n + k) adj es st = Inr b"
proof (induction es arbitrary: st)
  case Nil
  then show ?case by simp
next
  case (Cons e es)
  obtain V S where st: "st = (V, S)" by (cases st)
  show ?case
  proof (cases "entity_id e \<in> V")
    case True
    with Cons st show ?thesis by simp
  next
    case False
    with Cons.prems st obtain c st' where call: "dfs n adj (entity_id e) (V, S) = Inr (c, st')"
      by (auto split: sum.splits)
    from dfs_mono(1) [OF call] have call': "dfs (n + k) adj (entity_id e) (V, S) = Inr (c, st')" .
    show ?thesis
    proof (cases c)
      case True
      with call call' False Cons.prems st show ?thesis by simp
    next
      case nc: False
      with call False Cons.prems st have "dfs_roots n adj es st' = Inr b" by simp
      from Cons.IH [OF this] call' nc False st show ?thesis by simp
    qed
  qed
qed

lemma check_cycle_mono: "check_cycle n s = Inr b \<Longrightarrow> check_cycle (n + k) s = Inr b"
  by (auto simp: check_cycle_def dfs_roots_mono split: if_splits)

lemma check_cycle_sound:
  assumes "check_cycle n s = Inr b"
  shows "b = cycle_reachable s"
proof -
  from check_cycle_mono [OF assms] have "check_cycle (n + length (node_ids s)) s = Inr b" .
  moreover have "check_cycle (n + length (node_ids s)) s = Inr (cycle_reachable s)"
    by (rule check_cycle_total) simp
  ultimately show ?thesis by simp
qed

lemma dfs_error:
  "dfs n adj u st = Inl e \<Longrightarrow> e = RecursionError"
  "dfs_loop n adj nbs st = Inl e \<Longrightarrow> e = RecursionError"
  by (induction n adj u st and n adj nbs st rule: dfs_dfs_loop.induct)
    (auto split: sum.splits if_splits bool.splits prod.splits)

lemma dfs_roots_error: "dfs_roots n adj es st = Inl e \<Longrightarrow> e = RecursionError"
proof (induction es arbitrary: st)
  case Nil
  then show ?case by simp
next
  case (Cons x es)
  obtain V S where st: "st = (V, S)" by (cases st)
  from Cons.prems show ?case unfolding st
    by (auto split: sum.splits if_splits bool.splits prod.splits dest: dfs_error(1) Cons.IH)
qed

lemma check_cycle_error:
  assumes "check_cycle n s = Inl e"
  shows "e = RecursionError \<and> n < length (node_ids s)"
proof -
  from assms have "e = RecursionError"
    by (auto simp: check_cycle_def dest: dfs_roots_error split: if_splits)
  moreover have "n < length (node_ids s)"
  proof (rule ccontr)
    assume "\<not> n < length (node_ids s)"
    then have "check_cycle n s = Inr (cycle_reachable s)" by (intro check_cycle_total) simp
    with assms show False by simp
  qed
  ultimately show ?thesis by simp
qed


subsection \<open>Deep and shallow searches\<close>

lemma node_eq [simp]: "node i = node j \<longleftrightarrow> i = j"
  by (simp add: node_def)

lemma filter_eq_upt: "filter (\<lambda>j. j = i) [0..<k] = (if i < k then [i] else [])"
  by (induction k) auto

lemma adj_chain_edges:
  "map relation_target (filter (\<lambda>r. relation_source r = node i) (chain_edges k)) =
     (if i < k then [node (Suc i)] else [])"
proof -
  have "filter (\<lambda>r. relation_source r = node i) (chain_edges k) =
      map (\<lambda>j. edge j (Suc j)) (filter (\<lambda>j. j = i) [0..<k])"
    by (simp add: chain_edges_def filter_map comp_def edge_def)
  then show ?thesis by (simp add: filter_eq_upt edge_def)
qed

lemma adj_fan_edges:
  "map relation_target (filter (\<lambda>r. relation_source r = node i) (fan_edges k)) =
     (if i = 0 then map node (rev [2..<Suc k]) else [])"
  by (simp add: fan_edges_def filter_map comp_def edge_def)

lemma adj_chain_structure:
  "adj_get (build_adj (chain_structure k)) (node i) = (if i < k then [node (Suc i)] else [])"
  by (simp add: adj_get_build_adj chain_structure_def adj_chain_edges)

lemma adj_fan_chain:
  "adj_get (build_adj (fan_chain k)) (node i) =
     (if i < k then [node (Suc i)] else []) @ (if i = 0 then map node (rev [2..<Suc k]) else [])"
  by (simp add: adj_get_build_adj fan_chain_def adj_chain_edges adj_fan_edges)

lemma adj_fan_first:
  "adj_get (build_adj (fan_first k)) (node i) =
     (if i = 0 then map node (rev [2..<Suc k]) else []) @ (if i < k then [node (Suc i)] else [])"
  by (simp add: adj_get_build_adj fan_first_def adj_chain_edges adj_fan_edges)

text \<open>Where the first neighbour of every node of the path is the next node, the search
  from \<open>node i\<close> nests once for every node from \<open>node i\<close> to \<open>node k\<close>.\<close>

lemma dfs_deep:
  assumes adj: "\<And>i. i < k \<Longrightarrow> \<exists>rest. adj_get adj (node i) = node (Suc i) # rest"
  shows "n \<le> k - i \<Longrightarrow> i \<le> k \<Longrightarrow> S \<subseteq> V \<Longrightarrow> (\<And>j. i \<le> j \<Longrightarrow> node j \<notin> V)
     \<Longrightarrow> dfs n adj (node i) (V, S) = Inl RecursionError"
proof (induction n arbitrary: i V S)
  case 0
  then show ?case by simp
next
  case (Suc n)
  from Suc.prems(1) have ik: "i < k" by simp
  from adj [OF ik] obtain rest where nbs: "adj_get adj (node i) = node (Suc i) # rest" by blast
  have fresh: "node (Suc i) \<notin> insert (node i) V" using Suc.prems(4) [of "Suc i"] by simp
  have stack: "node (Suc i) \<notin> insert (node i) S" using fresh Suc.prems(3) by auto
  have "dfs n adj (node (Suc i)) (insert (node i) V, insert (node i) S) = Inl RecursionError"
  proof (rule Suc.IH)
    show "n \<le> k - Suc i" using Suc.prems(1) by simp
    show "Suc i \<le> k" using ik by simp
    show "insert (node i) S \<subseteq> insert (node i) V" using Suc.prems(3) by auto
    show "node j \<notin> insert (node i) V" if "Suc i \<le> j" for j
      using that Suc.prems(4) [of j] by simp
  qed
  with nbs fresh stack show ?case by simp
qed

lemma check_cycle_chain:
  assumes "0 < k" and "n \<le> k"
  shows "check_cycle n (chain_structure k) = Inl RecursionError"
proof -
  have "dfs n (build_adj (chain_structure k)) (node 0) ({}, {}) = Inl RecursionError"
    using assms by (intro dfs_deep [where k = k]) (simp_all add: adj_chain_structure)
  moreover have "relations (chain_structure k) \<noteq> []"
    using assms(1) by (simp add: chain_structure_def chain_edges_def)
  ultimately show ?thesis
    by (simp add: check_cycle_def) (simp add: chain_structure_def root_entity_def)
qed

lemma check_cycle_fan_chain:
  assumes "0 < k" and "n \<le> k"
  shows "check_cycle n (fan_chain k) = Inl RecursionError"
proof -
  have "dfs n (build_adj (fan_chain k)) (node 0) ({}, {}) = Inl RecursionError"
    using assms by (intro dfs_deep [where k = k]) (simp_all add: adj_fan_chain)
  moreover have "relations (fan_chain k) \<noteq> []"
    using assms(1) by (simp add: fan_chain_def chain_edges_def)
  ultimately show ?thesis
    by (simp add: check_cycle_def) (simp add: fan_chain_def root_entity_def)
qed

text \<open>Where \<open>node 0\<close> lists the nodes of the path from the last to the first, each is
  searched with its successor finished already, and two nested calls are enough.\<close>

lemma fan_loop:
  assumes adj: "\<And>i. 1 \<le> i \<Longrightarrow> i \<le> k \<Longrightarrow>
      adj_get adj (node i) = (if i < k then [node (Suc i)] else [])"
  shows "i \<le> k \<Longrightarrow> node 0 \<in> V \<Longrightarrow> (\<And>j. i < j \<Longrightarrow> j \<le> k \<Longrightarrow> node j \<in> V)
     \<Longrightarrow> (\<And>j. 1 \<le> j \<Longrightarrow> j \<le> i \<Longrightarrow> node j \<notin> V)
     \<Longrightarrow> \<exists>V'. dfs_loop (Suc m) adj (map node (rev [1..<Suc i])) (V, {node 0}) =
           Inr (False, (V', {node 0}))"
proof (induction i arbitrary: V)
  case 0
  then show ?case by simp
next
  case (Suc i)
  let ?u = "node (Suc i)"
  have uV: "?u \<notin> V" using Suc.prems(4) [of "Suc i"] by simp
  have call: "dfs (Suc m) adj ?u (V, {node 0}) = Inr (False, (insert ?u V, {node 0}))"
  proof (cases "Suc i < k")
    case True
    then have nbs: "adj_get adj ?u = [node (Suc (Suc i))]" using adj [of "Suc i"] by simp
    have "node (Suc (Suc i)) \<in> V" using True Suc.prems(3) [of "Suc (Suc i)"] by simp
    with nbs show ?thesis by auto
  next
    case False
    with Suc.prems(1) have nbs: "adj_get adj ?u = []" using adj [of "Suc i"] by simp
    then show ?thesis by auto
  qed
  have "\<exists>V'. dfs_loop (Suc m) adj (map node (rev [1..<Suc i])) (insert ?u V, {node 0}) =
      Inr (False, (V', {node 0}))"
  proof (rule Suc.IH)
    show "i \<le> k" using Suc.prems(1) by simp
    show "node 0 \<in> insert ?u V" using Suc.prems(2) by simp
    show "node j \<in> insert ?u V" if "i < j" "j \<le> k" for j
      using that Suc.prems(3) [of j] by (cases "j = Suc i") simp_all
    show "node j \<notin> insert ?u V" if "1 \<le> j" "j \<le> i" for j
      using that Suc.prems(4) [of j] by simp
  qed
  then obtain V' where rest:
    "dfs_loop (Suc m) adj (map node (rev [1..<Suc i])) (insert ?u V, {node 0}) =
      Inr (False, (V', {node 0}))" by blast
  have "map node (rev [1..<Suc (Suc i)]) = ?u # map node (rev [1..<Suc i])" by simp
  with uV call rest show ?case by simp
qed

lemma check_cycle_fan_first:
  assumes "0 < k" and "2 \<le> n"
  shows "check_cycle n (fan_first k) = Inr False"
proof -
  let ?adj = "build_adj (fan_first k)"
  from assms(2) obtain m where n: "n = Suc (Suc m)" by (metis Suc_le_D numeral_2_eq_2 Suc_le_mono)
  have "[1..<Suc k] = 1 # [Suc 1..<Suc k]"
    using assms(1) by (intro upt_conv_Cons) simp
  then have "[1..<Suc k] = 1 # [2..<Suc k]" by (simp only: Suc_1)
  then have "rev [2..<Suc k] @ [1] = rev [1..<Suc k]" by (simp only: rev.simps)
  then have "map node (rev [2..<Suc k]) @ [node 1] = map node (rev [1..<Suc k])"
    by (metis list.simps(8,9) map_append)
  then have root: "adj_get ?adj (node 0) = map node (rev [1..<Suc k])"
    using assms(1) by (simp add: adj_fan_first)
  have "\<exists>V'. dfs_loop (Suc m) ?adj (map node (rev [1..<Suc k])) ({node 0}, {node 0}) =
      Inr (False, (V', {node 0}))"
    by (rule fan_loop [where k = k]) (simp_all add: adj_fan_first)
  then obtain V' where "dfs_loop (Suc m) ?adj (adj_get ?adj (node 0)) ({node 0}, {node 0}) =
      Inr (False, (V', {node 0}))" unfolding root by blast
  then have "dfs n ?adj (node 0) ({}, {}) = Inr (False, (V', {}))" by (simp add: n)
  moreover have "relations (fan_first k) \<noteq> []"
    using assms(1) by (simp add: fan_first_def chain_edges_def)
  ultimately show ?thesis
    by (simp add: check_cycle_def) (simp add: fan_first_def root_entity_def)
qed


section \<open>Unknown feature names\<close>

text \<open>
  C10. For every structure and every feature name outside the five-name vocabulary
  (recursive_decomposability, linear_chain, tree, cycle, bipartite), \<open>has_feature\<close>
  returns false, whatever recursion depth the interpreter allows.
\<close>

theorem has_feature_unknown:
  "feature \<notin> {''recursive_decomposability'', ''linear_chain'', ''tree'', ''cycle'', ''bipartite''}
   \<Longrightarrow> has_feature n s feature = Inr False"
  by (simp add: has_feature_def)

theorem has_feature_unknown_witness:
  "''acyclic'' \<notin> {''recursive_decomposability'', ''linear_chain'', ''tree'', ''cycle'', ''bipartite''}
   \<and> has_feature 0 \<lparr>entities = [\<lparr>entity_id = ''a'', entity_type = ''t'', entity_properties = []\<rparr>],
        relations = [\<lparr>relation_source = ''a'', relation_target = ''a'', relation_type = ''x'',
                      relation_properties = []\<rparr>]\<rparr> ''acyclic'' = Inr False"
  using has_feature_unknown [of "''acyclic''" 0
      "\<lparr>entities = [\<lparr>entity_id = ''a'', entity_type = ''t'', entity_properties = []\<rparr>],
        relations = [\<lparr>relation_source = ''a'', relation_target = ''a'', relation_type = ''x'',
                      relation_properties = []\<rparr>]\<rparr>"]
  by simp

section \<open>Totality of the feature detector\<close>

text \<open>
  C8. The feature detector is claimed to return a boolean without error on every
  structure. The cycle check on the path of 1000 edges nests 1001 calls of \<^verbatim>\<open>dfs\<close> and
  ends in \<^verbatim>\<open>RecursionError\<close> where the interpreter allows 1000 (or fewer). What holds is:
  every feature check other than the cycle check returns a boolean on every structure;
  the cycle check returns a boolean on every structure, with self-loops, parallel edges,
  disconnected components and edges to identifiers of no entity, whenever the
  interpreter allows the search to nest as deep as the number of identifiers in the
  structure; and the only error a feature check ends in is the \<^verbatim>\<open>RecursionError\<close> of the
  cycle check on a structure with more identifiers than that depth. No check runs
  forever.
\<close>

theorem has_feature_total:
  "(length (node_ids s) \<le> n \<or> feature \<noteq> ''cycle'' \<longrightarrow> (\<exists>b. has_feature n s feature = Inr b))
   \<and> (\<forall>e. has_feature n s feature = Inl e \<longrightarrow>
          e = RecursionError \<and> feature = ''cycle'' \<and> n < length (node_ids s))"
proof (cases "feature = ''cycle''")
  case True
  then have hf: "has_feature n s feature = check_cycle n s" by (simp add: has_feature_def)
  show ?thesis unfolding hf using True check_cycle_total [of s n] check_cycle_error [of n s]
    by auto
next
  case False
  then have "\<exists>b. has_feature n s feature = Inr b" by (auto simp: has_feature_def)
  with False show ?thesis by auto
qed

theorem has_feature_total_witness:
  "length (node_ids
      \<lparr>entities = [\<lparr>entity_id = ''a'', entity_type = ''t'', entity_properties = []\<rparr>,
                   \<lparr>entity_id = ''b'', entity_type = ''t'', entity_properties = []\<rparr>],
       relations = [\<lparr>relation_source = ''a'', relation_target = ''b'', relation_type = ''x'', relation_properties = []\<rparr>,
                    \<lparr>relation_source = ''a'', relation_target = ''b'', relation_type = ''y'', relation_properties = []\<rparr>,
                    \<lparr>relation_source = ''b'', relation_target = ''c'', relation_type = ''x'', relation_properties = []\<rparr>,
                    \<lparr>relation_source = ''b'', relation_target = ''b'', relation_type = ''x'', relation_properties = []\<rparr>]\<rparr>) \<le> 10
   \<and> has_feature 10
      \<lparr>entities = [\<lparr>entity_id = ''a'', entity_type = ''t'', entity_properties = []\<rparr>,
                   \<lparr>entity_id = ''b'', entity_type = ''t'', entity_properties = []\<rparr>],
       relations = [\<lparr>relation_source = ''a'', relation_target = ''b'', relation_type = ''x'', relation_properties = []\<rparr>,
                    \<lparr>relation_source = ''a'', relation_target = ''b'', relation_type = ''y'', relation_properties = []\<rparr>,
                    \<lparr>relation_source = ''b'', relation_target = ''c'', relation_type = ''x'', relation_properties = []\<rparr>,
                    \<lparr>relation_source = ''b'', relation_target = ''b'', relation_type = ''x'', relation_properties = []\<rparr>]\<rparr>
      ''cycle'' = Inr True"
proof -
  let ?s = "\<lparr>entities = [\<lparr>entity_id = ''a'', entity_type = ''t'', entity_properties = []\<rparr>,
                   \<lparr>entity_id = ''b'', entity_type = ''t'', entity_properties = []\<rparr>],
       relations = [\<lparr>relation_source = ''a'', relation_target = ''b'', relation_type = ''x'', relation_properties = []\<rparr>,
                    \<lparr>relation_source = ''a'', relation_target = ''b'', relation_type = ''y'', relation_properties = []\<rparr>,
                    \<lparr>relation_source = ''b'', relation_target = ''c'', relation_type = ''x'', relation_properties = []\<rparr>,
                    \<lparr>relation_source = ''b'', relation_target = ''b'', relation_type = ''x'', relation_properties = []\<rparr>]\<rparr>"
  have len: "length (node_ids ?s) \<le> 10" by (simp add: node_ids_def)
  have val: "has_feature 10 ?s ''cycle'' = Inr True"
    by (simp add: has_feature_def check_cycle_def build_adj_def add_edge_def
        adj_get_def eval_nat_numeral)
  from has_feature_total [of ?s 10 "''cycle''"] len val show ?thesis by simp
qed

text \<open>The path of 1000 edges where the interpreter allows 1000 nested calls.\<close>

theorem has_feature_recursion_error:
  "has_feature 1000 (chain_structure 1000) ''cycle'' = Inl RecursionError"
  by (simp add: has_feature_def check_cycle_chain)

section \<open>The cycle feature and the order of the edges\<close>

text \<open>
  C7. The cycle check is claimed to return the same boolean on a structure with a nonempty
  edge list and on every permutation of its edge sequence. The order of the edges is
  the order of the neighbours, which decides how deep the search nests: with the edges
  of the path listed first the search of \<open>fan_chain 1000\<close> nests 1001 calls and ends in
  \<^verbatim>\<open>RecursionError\<close> where 1000 are allowed, with the fan edges listed first it nests two
  and returns false. What holds is: for every structure with a nonempty edge list and
  every permutation of its edge sequence, when the cycle check returns a boolean on both
  it is the same boolean, and it returns on both whenever the interpreter allows the
  search to nest as deep as the number of identifiers in the structure.
\<close>

theorem cycle_feature_edge_order:
  assumes "relations s \<noteq> []" and "mset rs = mset (relations s)"
  shows "(\<forall>b b'. has_feature n s ''cycle'' = Inr b \<longrightarrow>
            has_feature n (s\<lparr>relations := rs\<rparr>) ''cycle'' = Inr b' \<longrightarrow> b = b')
     \<and> (length (node_ids s) \<le> n \<longrightarrow>
          (\<exists>b. has_feature n s ''cycle'' = Inr b
              \<and> has_feature n (s\<lparr>relations := rs\<rparr>) ''cycle'' = Inr b))"
proof -
  from assms(2) have "set rs = set (relations s)" by (rule mset_eq_setD)
  then have same: "cycle_reachable (s\<lparr>relations := rs\<rparr>) = cycle_reachable s"
    by (simp add: cycle_reachable_def edge_set_def)
  from assms(2) have "length rs = length (relations s)" by (rule mset_eq_length)
  then have len: "length (node_ids (s\<lparr>relations := rs\<rparr>)) = length (node_ids s)"
    by (simp add: node_ids_def)
  have hf: "has_feature n t ''cycle'' = check_cycle n t" for t
    by (simp add: has_feature_def)
  have "b = b'" if "check_cycle n s = Inr b" "check_cycle n (s\<lparr>relations := rs\<rparr>) = Inr b'"
    for b b'
    using check_cycle_sound [OF that(1)] check_cycle_sound [OF that(2)] same by simp
  moreover have "check_cycle n s = Inr (cycle_reachable s)
      \<and> check_cycle n (s\<lparr>relations := rs\<rparr>) = Inr (cycle_reachable s)"
    if "length (node_ids s) \<le> n"
    using check_cycle_total [OF that] check_cycle_total [of "s\<lparr>relations := rs\<rparr>" n]
      that len same by simp
  ultimately show ?thesis unfolding hf by blast
qed

theorem cycle_feature_edge_order_witness:
  "relations \<lparr>entities = [\<lparr>entity_id = ''a'', entity_type = ''t'', entity_properties = []\<rparr>],
       relations = [\<lparr>relation_source = ''a'', relation_target = ''b'', relation_type = ''x'', relation_properties = []\<rparr>,
                    \<lparr>relation_source = ''b'', relation_target = ''a'', relation_type = ''x'', relation_properties = []\<rparr>]\<rparr> \<noteq> []
   \<and> mset [\<lparr>relation_source = ''b'', relation_target = ''a'', relation_type = ''x'', relation_properties = []\<rparr>,
        \<lparr>relation_source = ''a'', relation_target = ''b'', relation_type = ''x'', relation_properties = []\<rparr>]
       = mset (relations \<lparr>entities = [\<lparr>entity_id = ''a'', entity_type = ''t'', entity_properties = []\<rparr>],
       relations = [\<lparr>relation_source = ''a'', relation_target = ''b'', relation_type = ''x'', relation_properties = []\<rparr>,
                    \<lparr>relation_source = ''b'', relation_target = ''a'', relation_type = ''x'', relation_properties = []\<rparr>]\<rparr>)
   \<and> has_feature 10 \<lparr>entities = [\<lparr>entity_id = ''a'', entity_type = ''t'', entity_properties = []\<rparr>],
       relations = [\<lparr>relation_source = ''a'', relation_target = ''b'', relation_type = ''x'', relation_properties = []\<rparr>,
                    \<lparr>relation_source = ''b'', relation_target = ''a'', relation_type = ''x'', relation_properties = []\<rparr>]\<rparr> ''cycle'' = Inr True
   \<and> has_feature 10 (\<lparr>entities = [\<lparr>entity_id = ''a'', entity_type = ''t'', entity_properties = []\<rparr>],
       relations = [\<lparr>relation_source = ''a'', relation_target = ''b'', relation_type = ''x'', relation_properties = []\<rparr>,
                    \<lparr>relation_source = ''b'', relation_target = ''a'', relation_type = ''x'', relation_properties = []\<rparr>]\<rparr>\<lparr>relations := [\<lparr>relation_source = ''b'', relation_target = ''a'', relation_type = ''x'', relation_properties = []\<rparr>,
        \<lparr>relation_source = ''a'', relation_target = ''b'', relation_type = ''x'', relation_properties = []\<rparr>]\<rparr>) ''cycle'' = Inr True"
proof -
  let ?s = "\<lparr>entities = [\<lparr>entity_id = ''a'', entity_type = ''t'', entity_properties = []\<rparr>],
       relations = [\<lparr>relation_source = ''a'', relation_target = ''b'', relation_type = ''x'', relation_properties = []\<rparr>,
                    \<lparr>relation_source = ''b'', relation_target = ''a'', relation_type = ''x'', relation_properties = []\<rparr>]\<rparr>"
  let ?rs = "[\<lparr>relation_source = ''b'', relation_target = ''a'', relation_type = ''x'', relation_properties = []\<rparr>,
        \<lparr>relation_source = ''a'', relation_target = ''b'', relation_type = ''x'', relation_properties = []\<rparr>]"
  have h1: "relations ?s \<noteq> []" by simp
  have h2: "mset ?rs = mset (relations ?s)" by (simp add: add_mset_commute)
  have len: "length (node_ids ?s) \<le> 10" by (simp add: node_ids_def)
  have val: "has_feature 10 ?s ''cycle'' = Inr True"
    by (simp add: has_feature_def check_cycle_def build_adj_def add_edge_def
        adj_get_def eval_nat_numeral)
  from cycle_feature_edge_order [OF h1 h2, of 10] len val
  have "has_feature 10 (?s\<lparr>relations := ?rs\<rparr>) ''cycle'' = Inr True" by auto
  with h1 h2 val show ?thesis by (intro conjI)
qed

text \<open>Two orders of the same edges where the interpreter allows 1000 nested calls.\<close>

theorem cycle_feature_order_recursion:
  "relations (fan_chain 1000) \<noteq> []
   \<and> mset (fan_edges 1000 @ chain_edges 1000) = mset (relations (fan_chain 1000))
   \<and> has_feature 1000 (fan_chain 1000) ''cycle'' = Inl RecursionError
   \<and> has_feature 1000 ((fan_chain 1000)\<lparr>relations := fan_edges 1000 @ chain_edges 1000\<rparr>)
        ''cycle'' = Inr False"
proof -
  have same: "(fan_chain 1000)\<lparr>relations := fan_edges 1000 @ chain_edges 1000\<rparr> = fan_first 1000"
    by (simp add: fan_chain_def fan_first_def)
  have "relations (fan_chain 1000) \<noteq> []" by (simp add: fan_chain_def chain_edges_def)
  moreover have "mset (fan_edges 1000 @ chain_edges 1000) = mset (relations (fan_chain 1000))"
    by (simp add: fan_chain_def)
  moreover have "has_feature 1000 (fan_chain 1000) ''cycle'' = Inl RecursionError"
    by (simp add: has_feature_def check_cycle_fan_chain)
  moreover have "has_feature 1000 (fan_first 1000) ''cycle'' = Inr False"
    by (simp add: has_feature_def check_cycle_fan_first)
  ultimately show ?thesis unfolding same by (intro conjI)
qed

section \<open>Cycles among identifiers of no entity\<close>

text \<open>
  C4. The cycle feature is claimed to hold exactly when the edges form a directed cycle,
  also among identifiers that are endpoints of edges only. The search starts from the
  listed entities alone (\<open>check_cycle_sound\<close>: a boolean it returns says whether a
  listed entity reaches a cycle), so on the structure with no entity and the single edge
  from \<open>a\<close> to \<open>a\<close> the feature is false, although \<open>a\<close> lies on a cycle. No search
  starts there, so the recursion depth the interpreter allows, here 1000, plays no part.
\<close>

theorem check_cycle_misses_unlisted_nodes:
  "has_feature 1000 \<lparr>entities = [],
       relations = [\<lparr>relation_source = ''a'', relation_target = ''a'', relation_type = ''x'', relation_properties = []\<rparr>]\<rparr> ''cycle'' = Inr False
   \<and> (''a'', ''a'') \<in> (edge_set \<lparr>entities = [],
       relations = [\<lparr>relation_source = ''a'', relation_target = ''a'', relation_type = ''x'', relation_properties = []\<rparr>]\<rparr>)\<^sup>+"
  by (simp add: has_feature_def check_cycle_def edge_set_def)


section \<open>Matching\<close>

subsection \<open>Floats\<close>

lemma zero_point_one_value: "zero_point_one = 3602879701896397 / 36028797018963968"
  unfolding zero_point_one_def by code_simp

lemma float_div_half: "float_div 1 2 = 1 / 2"
  by code_simp

lemma float_div_unit: "float_div 0 1 = 0" "float_div 1 1 = 1"
  by code_simp+

text \<open>Five of seven is rounded up: at the threshold \<^verbatim>\<open>0.7142857142857143\<close> the float score
  passes the comparison, the exact quotient would not.\<close>

lemma float_div_five_sevenths:
  "float_div 5 7 = 6433713753386423 / 9007199254740992"
  "float_ge (float_div 5 7) (Finite (6433713753386423 / 9007199254740992))"
  "(5 / 7 :: rat) < 6433713753386423 / 9007199254740992"
proof -
  show v: "float_div 5 7 = 6433713753386423 / 9007199254740992" by code_simp
  show "float_ge (float_div 5 7) (Finite (6433713753386423 / 9007199254740992))"
    unfolding v by simp
  show "(5 / 7 :: rat) < 6433713753386423 / 9007199254740992" by simp
qed

subsection \<open>Feature detection inside \<open>match\<close>\<close>

lemma structural_features_total:
  assumes "length (node_ids (problem_structure p)) \<le> n"
  shows "\<exists>features. structural_features n p = Inr features"
proof -
  have "has_feature n (problem_structure p) ''cycle'' = Inr (cycle_reachable (problem_structure p))"
    using check_cycle_total [OF assms] by (simp add: has_feature_def)
  then show ?thesis
    by (simp add: structural_features_def bind_err_def) (simp add: has_feature_def)
qed

lemma structural_features_error:
  assumes "check_cycle n (problem_structure p) = Inl e"
  shows "structural_features n p = Inl e"
proof -
  have "has_feature n (problem_structure p) ''cycle'' = Inl e"
    using assms by (simp add: has_feature_def)
  then show ?thesis
    by (simp add: structural_features_def bind_err_def) (simp add: has_feature_def)
qed

lemma structural_features_example: "structural_features n (example_problem tags) = Inr []"
  by (simp add: structural_features_def bind_err_def example_problem_def has_feature_def
      check_recursive_def check_linear_chain_def check_tree_def check_cycle_def
      check_bipartite_def entity_types_def)

lemma match_chain_problem:
  "match 1000 st (chain_problem 1000) threshold = Inl RecursionError"
proof -
  have "check_cycle 1000 (problem_structure (chain_problem 1000)) = Inl RecursionError"
    by (simp add: chain_problem_def check_cycle_chain)
  then show ?thesis by (simp add: match_def bind_err_def structural_features_error)
qed

text \<open>The results of \<open>match\<close> are the results the loop body gives for the stored
  patterns, each carrying its pattern; the final sort only reorders them.\<close>

lemma match_Inr:
  "match n st problem threshold = Inr rs \<longleftrightarrow>
     (\<exists>features. structural_features n problem = Inr features
        \<and> rs = rev (sort_key score (rev (concat (map
              (match_pattern (set features \<union> set (problem_tags problem)) threshold)
              (all_patterns st))))))"
  by (cases "structural_features n problem") (auto simp: match_def bind_err_def Let_def)

lemma match_total:
  "length (node_ids (problem_structure problem)) \<le> n \<Longrightarrow>
   \<exists>rs. match n st problem threshold = Inr rs"
  using structural_features_total [of problem n] by (auto simp: match_Inr)

lemma set_match:
  assumes "match n st problem threshold = Inr rs"
    and "structural_features n problem = Inr features"
  shows "set rs =
     (\<Union>p \<in> set (all_patterns st).
        set (match_pattern (set features \<union> set (problem_tags problem)) threshold p))"
  using assms by (auto simp: match_Inr)

lemma match_pattern_result: "r \<in> set (match_pattern F threshold p) \<Longrightarrow> result_pattern r = p"
  by (auto simp: match_pattern_def Let_def split: if_splits)

lemma match_pattern_empty:
  "solution_preconditions (pattern_solution p) = [] \<Longrightarrow>
   match_pattern F threshold p =
     [\<lparr>result_pattern = p, score = zero_point_one, matched_features = [],
       unmatched_preconditions = []\<rparr>]"
  by (simp add: match_pattern_def)

lemma match_pattern_nonempty:
  "set (solution_preconditions (pattern_solution p)) = R \<Longrightarrow> R \<noteq> {} \<Longrightarrow>
   match_pattern F threshold p =
     (if float_ge (float_div (card (R \<inter> F)) (card R)) threshold then
        [\<lparr>result_pattern = p, score = float_div (card (R \<inter> F)) (card R),
          matched_features = sorted_list_of_set (R \<inter> F),
          unmatched_preconditions = sorted_list_of_set (R - F)\<rparr>]
      else [])"
  by (auto simp: match_pattern_def Let_def)

lemma results_of_pattern:
  assumes "p \<in> set (all_patterns st)" and "match n st problem threshold = Inr rs"
    and "structural_features n problem = Inr features"
  shows "{r \<in> set rs. result_pattern r = p} =
     set (match_pattern (set features \<union> set (problem_tags problem)) threshold p)"
  using assms(1) by (auto simp: set_match [OF assms(2,3)] dest: match_pattern_result)

lemma match_sorted:
  assumes "match n st problem threshold = Inr rs"
  shows "sorted_wrt (\<ge>) (map score rs)"
proof -
  have "sorted (map score (sort_key score xs))" for xs :: "MatchResult list"
    by (rule sorted_sort_key)
  then have "sorted_wrt (\<ge>) (map score (rev (sort_key score xs)))" for xs :: "MatchResult list"
    by (simp add: rev_map [symmetric] sorted_wrt_rev del: rev_map)
  with assms show ?thesis by (auto simp: match_Inr simp del: rev_map)
qed

lemma empty_preconditions_result:
  assumes "p \<in> set (all_patterns st)"
    and "solution_preconditions (pattern_solution p) = []"
    and "match n st problem threshold = Inr rs"
  shows "{r \<in> set rs. result_pattern r = p} =
     {\<lparr>result_pattern = p, score = zero_point_one, matched_features = [],
       unmatched_preconditions = []\<rparr>}"
proof -
  from assms(3) obtain features where "structural_features n problem = Inr features"
    by (auto simp: match_Inr)
  from results_of_pattern [OF assms(1,3) this] match_pattern_empty [OF assms(2)]
  show ?thesis by simp
qed


subsection \<open>Patterns without preconditions\<close>

text \<open>
  C2. A stored pattern whose solution has an empty precondition list is claimed to be
  in the results of \<open>match\<close> for every problem and every threshold. \<open>match\<close> computes the
  structural features of the problem first, and on the problem over the path of 1000
  edges that ends in \<^verbatim>\<open>RecursionError\<close> where the interpreter allows 1000 nested calls,
  before any pattern is looked at. What holds is: for every stored pattern whose
  solution has an empty precondition list, every threshold and every problem on which
  \<open>match\<close> returns, which it does whenever the interpreter allows the cycle search to
  nest as deep as the number of identifiers in the problem's structure, the results
  include the pattern with score exactly 0.1 and empty matched-feature and
  unmatched-precondition lists, and hold no other result for it: inclusion does not
  depend on the threshold.
\<close>

theorem match_empty_preconditions:
  assumes "p \<in> set (all_patterns st)"
    and "solution_preconditions (pattern_solution p) = []"
  shows "(length (node_ids (problem_structure problem)) \<le> n \<longrightarrow>
            (\<exists>rs. match n st problem threshold = Inr rs))
     \<and> (\<forall>rs. match n st problem threshold = Inr rs \<longrightarrow>
           \<lparr>result_pattern = p, score = zero_point_one, matched_features = [],
             unmatched_preconditions = []\<rparr> \<in> set rs
         \<and> (\<forall>r \<in> set rs. result_pattern r = p \<longrightarrow>
               r = \<lparr>result_pattern = p, score = zero_point_one, matched_features = [],
                     unmatched_preconditions = []\<rparr>))"
proof (intro conjI impI allI)
  assume "length (node_ids (problem_structure problem)) \<le> n"
  then show "\<exists>rs. match n st problem threshold = Inr rs" by (rule match_total)
next
  fix rs assume "match n st problem threshold = Inr rs"
  from empty_preconditions_result [OF assms this]
  show "\<lparr>result_pattern = p, score = zero_point_one, matched_features = [],
             unmatched_preconditions = []\<rparr> \<in> set rs"
    and "\<forall>r \<in> set rs. result_pattern r = p \<longrightarrow>
               r = \<lparr>result_pattern = p, score = zero_point_one, matched_features = [],
                     unmatched_preconditions = []\<rparr>"
    by auto
qed

theorem match_empty_preconditions_witness:
  "example_pattern ''p'' [] [] \<in> set (all_patterns [(''p'', example_pattern ''p'' [] [])])
   \<and> solution_preconditions (pattern_solution (example_pattern ''p'' [] [])) = []
   \<and> length (node_ids (problem_structure (example_problem []))) \<le> 1000
   \<and> (\<exists>rs. match 1000 [(''p'', example_pattern ''p'' [] [])] (example_problem []) (Finite 1) = Inr rs
         \<and> \<lparr>result_pattern = example_pattern ''p'' [] [], score = zero_point_one,
             matched_features = [], unmatched_preconditions = []\<rparr> \<in> set rs)"
proof -
  define p where "p = example_pattern ''p'' [] []"
  define q where "q = example_problem []"
  have h1: "p \<in> set (all_patterns [(''p'', p)])" by (simp add: all_patterns_def)
  have h2: "solution_preconditions (pattern_solution p) = []"
    by (simp add: p_def example_pattern_def)
  have h3: "length (node_ids (problem_structure q)) \<le> 1000"
    by (simp add: q_def example_problem_def node_ids_def)
  from match_empty_preconditions [OF h1 h2, of q 1000 "Finite 1"] h3
  have "\<exists>rs. match 1000 [(''p'', p)] q (Finite 1) = Inr rs
      \<and> \<lparr>result_pattern = p, score = zero_point_one, matched_features = [],
          unmatched_preconditions = []\<rparr> \<in> set rs"
    by auto
  with h1 h2 h3 show ?thesis unfolding p_def q_def by (intro conjI)
qed

text \<open>The problem over the path of 1000 edges where the interpreter allows 1000 nested
  calls: \<open>match\<close> has no results.\<close>

theorem match_empty_preconditions_recursion:
  "match 1000 [(''p'', example_pattern ''p'' [] [])] (chain_problem 1000) (Finite (1 / 2)) =
     Inl RecursionError"
  by (rule match_chain_problem)

text \<open>
  C3. A stored pattern with an empty precondition list is claimed to be excluded from the
  results when the threshold is strictly greater than 0.1, and included for every
  problem at a threshold up to 0.1. At threshold 0.5 the pattern is in the results, with
  score 0.1; and on the problem over the path of 1000 edges \<open>match\<close> ends in
  \<^verbatim>\<open>RecursionError\<close> at threshold 0.05. What holds is: for every stored pattern whose
  solution has an empty precondition list and every problem on which \<open>match\<close> returns
  (it does whenever the interpreter allows the cycle search to nest as deep as the
  number of identifiers in the problem's structure), the pattern is included with score
  exactly 0.1 at every threshold: at a threshold up to 0.1, and at a threshold above 0.1
  as well, where its score is below the threshold.
\<close>

theorem match_empty_preconditions_thresholds:
  assumes "p \<in> set (all_patterns st)"
    and "solution_preconditions (pattern_solution p) = []"
  shows "(length (node_ids (problem_structure problem)) \<le> n \<longrightarrow>
            (\<exists>rs. match n st problem threshold = Inr rs))
     \<and> (\<forall>rs. match n st problem threshold = Inr rs \<longrightarrow>
           (\<exists>r \<in> set rs. result_pattern r = p \<and> score r = zero_point_one
              \<and> (\<forall>t. threshold = Finite t \<and> zero_point_one < t \<longrightarrow> score r < t)))"
proof (intro conjI impI allI)
  assume "length (node_ids (problem_structure problem)) \<le> n"
  then show "\<exists>rs. match n st problem threshold = Inr rs" by (rule match_total)
next
  fix rs assume "match n st problem threshold = Inr rs"
  let ?r = "\<lparr>result_pattern = p, score = zero_point_one, matched_features = [],
             unmatched_preconditions = []\<rparr>"
  from empty_preconditions_result [OF assms \<open>match n st problem threshold = Inr rs\<close>]
  have "?r \<in> set rs" by auto
  moreover have "result_pattern ?r = p \<and> score ?r = zero_point_one
      \<and> (\<forall>t. threshold = Finite t \<and> zero_point_one < t \<longrightarrow> score ?r < t)" by simp
  ultimately show "\<exists>r \<in> set rs. result_pattern r = p \<and> score r = zero_point_one
      \<and> (\<forall>t. threshold = Finite t \<and> zero_point_one < t \<longrightarrow> score r < t)"
    by (rule bexI [rotated])
qed

theorem match_empty_preconditions_thresholds_witness:
  "example_pattern ''p'' [] [] \<in> set (all_patterns [(''p'', example_pattern ''p'' [] [])])
   \<and> solution_preconditions (pattern_solution (example_pattern ''p'' [] [])) = []
   \<and> length (node_ids (problem_structure (example_problem []))) \<le> 1000
   \<and> zero_point_one < 1 / 2
   \<and> (\<exists>rs. match 1000 [(''p'', example_pattern ''p'' [] [])] (example_problem [])
               (Finite (1 / 2)) = Inr rs
         \<and> (\<exists>r \<in> set rs. result_pattern r = example_pattern ''p'' [] []
               \<and> score r = zero_point_one \<and> score r < 1 / 2))"
proof -
  define p where "p = example_pattern ''p'' [] []"
  define q where "q = example_problem []"
  have h1: "p \<in> set (all_patterns [(''p'', p)])" by (simp add: all_patterns_def)
  have h2: "solution_preconditions (pattern_solution p) = []"
    by (simp add: p_def example_pattern_def)
  have h3: "length (node_ids (problem_structure q)) \<le> 1000"
    by (simp add: q_def example_problem_def node_ids_def)
  have h4: "zero_point_one < 1 / 2" by (simp add: zero_point_one_value)
  from match_empty_preconditions_thresholds [OF h1 h2, of q 1000 "Finite (1 / 2)"] h3
  obtain rs where rs: "match 1000 [(''p'', p)] q (Finite (1 / 2)) = Inr rs"
    and ex: "\<exists>r \<in> set rs. result_pattern r = p \<and> score r = zero_point_one
        \<and> (\<forall>t. Finite (1 / 2) = Finite t \<and> zero_point_one < t \<longrightarrow> score r < t)"
    by auto
  from ex h4 have "\<exists>r \<in> set rs. result_pattern r = p \<and> score r = zero_point_one
      \<and> score r < 1 / 2" by auto
  with rs have "\<exists>rs. match 1000 [(''p'', p)] q (Finite (1 / 2)) = Inr rs
      \<and> (\<exists>r \<in> set rs. result_pattern r = p \<and> score r = zero_point_one \<and> score r < 1 / 2)"
    by auto
  with h1 h2 h3 h4 show ?thesis unfolding p_def q_def by (intro conjI)
qed

text \<open>At threshold 0.5, above 0.1, the result list is the pattern with score 0.1: the
  pattern is not excluded. At threshold 0.05, below 0.1, \<open>match\<close> has no results on the
  problem over the path of 1000 edges.\<close>

theorem match_empty_preconditions_not_excluded:
  "zero_point_one < 1 / 2
   \<and> match 1000 [(''p'', example_pattern ''p'' [] [])] (example_problem []) (Finite (1 / 2)) =
       Inr [\<lparr>result_pattern = example_pattern ''p'' [] [], score = zero_point_one,
             matched_features = [], unmatched_preconditions = []\<rparr>]
   \<and> 1 / 20 \<le> zero_point_one
   \<and> match 1000 [(''p'', example_pattern ''p'' [] [])] (chain_problem 1000) (Finite (1 / 20)) =
       Inl RecursionError"
proof -
  have "match 1000 [(''p'', example_pattern ''p'' [] [])] (example_problem []) (Finite (1 / 2)) =
       Inr [\<lparr>result_pattern = example_pattern ''p'' [] [], score = zero_point_one,
             matched_features = [], unmatched_preconditions = []\<rparr>]"
    by (simp add: match_def bind_err_def structural_features_example all_patterns_def
        match_pattern_empty example_pattern_def)
  moreover have "zero_point_one < 1 / 2" "1 / 20 \<le> zero_point_one"
    by (simp_all add: zero_point_one_value)
  ultimately show ?thesis using match_chain_problem by (intro conjI)
qed

subsection \<open>Patterns with preconditions\<close>

text \<open>
  C5. For every stored pattern with a nonempty precondition set \<open>R\<close> and every problem
  with feature-plus-tag set \<open>F\<close>, \<open>match\<close> is claimed to score the pattern
  \<open>|R \<inter> F| / |R|\<close>, to include it exactly when the score is at least the threshold, and
  to return the results in descending order of score. On the problem over the path of
  1000 edges \<open>match\<close> ends in \<^verbatim>\<open>RecursionError\<close> where the interpreter allows 1000 nested
  calls and returns no result, at threshold 0 too, which every score reaches. What holds
  is: on every problem on which \<open>match\<close> returns (it does whenever the interpreter
  allows the cycle search to nest as deep as the number of identifiers in the problem's
  structure), the pattern is included exactly when its score, the float quotient of
  \<open>|R \<inter> F|\<close> by \<open>|R|\<close>, is at least the threshold; every result for the pattern
  carries that score with the sorted matched and unmatched labels; and the scores of the
  result sequence are in descending order. A pattern of score 0.5 is included at
  threshold 0.5 and excluded at threshold 0.6.
\<close>

theorem match_score_threshold_sorted:
  assumes "p \<in> set (all_patterns st)"
    and "R = set (solution_preconditions (pattern_solution p))" and "R \<noteq> {}"
  shows "(length (node_ids (problem_structure problem)) \<le> n \<longrightarrow>
            (\<exists>rs. match n st problem threshold = Inr rs))
     \<and> (\<forall>rs features F. match n st problem threshold = Inr rs \<longrightarrow>
           structural_features n problem = Inr features \<longrightarrow>
           F = set features \<union> set (problem_tags problem) \<longrightarrow>
           ((\<exists>r \<in> set rs. result_pattern r = p)
              \<longleftrightarrow> float_ge (float_div (card (R \<inter> F)) (card R)) threshold)
         \<and> (\<forall>r \<in> set rs. result_pattern r = p \<longrightarrow>
                score r = float_div (card (R \<inter> F)) (card R)
              \<and> matched_features r = sorted_list_of_set (R \<inter> F)
              \<and> unmatched_preconditions r = sorted_list_of_set (R - F))
         \<and> sorted_wrt (\<ge>) (map score rs))"
proof (intro conjI impI allI)
  assume "length (node_ids (problem_structure problem)) \<le> n"
  then show "\<exists>rs. match n st problem threshold = Inr rs" by (rule match_total)
next
  fix rs features F
  assume run: "match n st problem threshold = Inr rs"
    and feats: "structural_features n problem = Inr features"
    and F: "F = set features \<union> set (problem_tags problem)"
  have mp: "match_pattern F threshold p =
     (if float_ge (float_div (card (R \<inter> F)) (card R)) threshold then
        [\<lparr>result_pattern = p, score = float_div (card (R \<inter> F)) (card R),
          matched_features = sorted_list_of_set (R \<inter> F),
          unmatched_preconditions = sorted_list_of_set (R - F)\<rparr>]
      else [])"
    using assms(2,3) by (intro match_pattern_nonempty) simp_all
  have res: "{r \<in> set rs. result_pattern r = p} = set (match_pattern F threshold p)"
    unfolding F by (rule results_of_pattern [OF assms(1) run feats])
  have "(\<exists>r \<in> set rs. result_pattern r = p) \<longleftrightarrow> {r \<in> set rs. result_pattern r = p} \<noteq> {}"
    by blast
  also have "\<dots> \<longleftrightarrow> float_ge (float_div (card (R \<inter> F)) (card R)) threshold"
    unfolding res mp by simp
  finally show "(\<exists>r \<in> set rs. result_pattern r = p)
      \<longleftrightarrow> float_ge (float_div (card (R \<inter> F)) (card R)) threshold" .
  show "\<forall>r \<in> set rs. result_pattern r = p \<longrightarrow>
            score r = float_div (card (R \<inter> F)) (card R)
          \<and> matched_features r = sorted_list_of_set (R \<inter> F)
          \<and> unmatched_preconditions r = sorted_list_of_set (R - F)"
  proof (intro ballI impI)
    fix r assume "r \<in> set rs" "result_pattern r = p"
    then have "r \<in> set (match_pattern F threshold p)" using res by blast
    then show "score r = float_div (card (R \<inter> F)) (card R)
          \<and> matched_features r = sorted_list_of_set (R \<inter> F)
          \<and> unmatched_preconditions r = sorted_list_of_set (R - F)"
      unfolding mp by (auto split: if_splits)
  qed
  show "sorted_wrt (\<ge>) (map score rs)" by (rule match_sorted [OF run])
qed


theorem match_score_threshold_sorted_witness:
  "example_pattern ''dc'' [''recursive_decomposability'', ''independent_subproblems''] []
     \<in> set (all_patterns [(''dc'', example_pattern ''dc''
                [''recursive_decomposability'', ''independent_subproblems''] [])])
   \<and> set (solution_preconditions (pattern_solution (example_pattern ''dc''
            [''recursive_decomposability'', ''independent_subproblems''] []))) \<noteq> {}
   \<and> match 1000 [(''dc'', example_pattern ''dc''
                [''recursive_decomposability'', ''independent_subproblems''] [])]
        (example_problem [''recursive_decomposability'']) (Finite (1 / 2)) =
       Inr [\<lparr>result_pattern = example_pattern ''dc''
            [''recursive_decomposability'', ''independent_subproblems''] [],
         score = 1 / 2, matched_features = [''recursive_decomposability''],
         unmatched_preconditions = [''independent_subproblems'']\<rparr>]
   \<and> match 1000 [(''dc'', example_pattern ''dc''
                [''recursive_decomposability'', ''independent_subproblems''] [])]
        (example_problem [''recursive_decomposability'']) (Finite (3 / 5)) = Inr []"
proof -
  define p where "p = example_pattern ''dc'' [''recursive_decomposability'', ''independent_subproblems''] []"
  define q where "q = example_problem [''recursive_decomposability'']"
  define R :: "string set" where "R = {''recursive_decomposability'', ''independent_subproblems''}"
  define F :: "string set" where "F = {''recursive_decomposability''}"
  define a where "a = ''recursive_decomposability''"
  define b where "b = ''independent_subproblems''"
  have ab: "a \<noteq> b" by (simp add: a_def b_def)
  have Rab: "R = {a, b}" and Fa: "F = {a}" by (simp_all add: R_def F_def a_def b_def)
  have h1: "p \<in> set (all_patterns [(''dc'', p)])" by (simp add: all_patterns_def)
  have hR: "R = set (solution_preconditions (pattern_solution p))"
    by (simp add: R_def p_def example_pattern_def)
  have h3: "R \<noteq> {}" by (simp add: R_def)
  have feats: "structural_features 1000 q = Inr []"
    unfolding q_def by (rule structural_features_example)
  have hF: "F = set [] \<union> set (problem_tags q)"
    by (simp add: q_def example_problem_def F_def)
  have inter: "R \<inter> F = {a}" and diff: "R - F = {b}" using ab by (auto simp: Rab Fa)
  have c2: "card R = 2" using ab by (simp add: Rab)
  have c1: "card (R \<inter> F) = 1" unfolding inter by simp
  have sc: "float_div (card (R \<inter> F)) (card R) = 1 / 2"
    by (simp only: c1 c2 float_div_half)
  have m: "sorted_list_of_set (R \<inter> F) = [a]" unfolding inter by simp
  have u: "sorted_list_of_set (R - F) = [b]" unfolding diff by simp
  have run: "\<exists>rs. match 1000 [(''dc'', p)] q t = Inr rs" for t
    using feats by (simp add: match_Inr)
  have len: "match 1000 [(''dc'', p)] q t = Inr rs \<Longrightarrow> length rs \<le> 1" for t rs
    using feats by (auto simp: match_Inr all_patterns_def match_pattern_def Let_def)
  have pat: "match 1000 [(''dc'', p)] q t = Inr rs \<Longrightarrow> r \<in> set rs \<Longrightarrow> result_pattern r = p"
    for r t rs
    using set_match [OF _ feats, of "[(''dc'', p)]" t rs]
    by (auto simp: all_patterns_def dest: match_pattern_result)
  note inst = match_score_threshold_sorted [OF h1 hR h3]
  from run obtain rs1 where rs1: "match 1000 [(''dc'', p)] q (Finite (1 / 2)) = Inr rs1" by auto
  from run obtain rs2 where rs2: "match 1000 [(''dc'', p)] q (Finite (3 / 5)) = Inr rs2" by auto
  note half = inst [of q 1000 "Finite (1 / 2)", THEN conjunct2, rule_format, OF rs1 feats hF]
  note more = inst [of q 1000 "Finite (3 / 5)", THEN conjunct2, rule_format, OF rs2 feats hF]
  from half have iff_half: "(\<exists>r \<in> set rs1. result_pattern r = p)
      \<longleftrightarrow> float_ge (1 / 2) (Finite (1 / 2))"
    and all_half: "\<forall>r \<in> set rs1. result_pattern r = p \<longrightarrow>
      score r = 1 / 2 \<and> matched_features r = [a] \<and> unmatched_preconditions r = [b]"
    unfolding sc m u by blast+
  from iff_half have in_half: "\<exists>r \<in> set rs1. result_pattern r = p" by simp
  from more have "(\<exists>r \<in> set rs2. result_pattern r = p)
      \<longleftrightarrow> float_ge (1 / 2) (Finite (3 / 5))"
    unfolding sc by blast
  then have out: "\<not> (\<exists>r \<in> set rs2. result_pattern r = p)" by simp
  have "set rs2 = {}"
  proof (rule equals0I)
    fix r assume "r \<in> set rs2"
    with out pat [OF rs2, of r] show False by auto
  qed
  then have e2: "match 1000 [(''dc'', p)] q (Finite (3 / 5)) = Inr []" using rs2 by simp
  from in_half obtain r where r: "r \<in> set rs1" by auto
  with len [OF rs1] have "rs1 = [r]" by (cases rs1) auto
  moreover from r pat [OF rs1, of r] all_half
  have "result_pattern r = p \<and> score r = 1 / 2 \<and> matched_features r = [a]
      \<and> unmatched_preconditions r = [b]" by auto
  then have "r = \<lparr>result_pattern = p, score = 1 / 2, matched_features = [a],
      unmatched_preconditions = [b]\<rparr>" by (cases r) simp
  ultimately have e1: "match 1000 [(''dc'', p)] q (Finite (1 / 2)) =
      Inr [\<lparr>result_pattern = p, score = 1 / 2, matched_features = [a],
        unmatched_preconditions = [b]\<rparr>]" using rs1 by simp
  have h3': "set (solution_preconditions (pattern_solution p)) \<noteq> {}"
    using h3 hR by simp
  from h1 h3' e1 e2 show ?thesis unfolding p_def q_def a_def b_def by (intro conjI)
qed

text \<open>At threshold 0, which the score of any pattern over one precondition reaches,
  \<open>match\<close> has no results on the problem over the path of 1000 edges.\<close>

theorem match_score_threshold_recursion:
  "float_ge (float_div 0 1) (Finite 0) \<and> float_ge (float_div 1 1) (Finite 0)
   \<and> match 1000 [(''dc'', example_pattern ''dc'' [''recursive_decomposability''] [])]
       (chain_problem 1000) (Finite 0) = Inl RecursionError"
proof -
  have "float_ge (float_div 0 1) (Finite 0)" "float_ge (float_div 1 1) (Finite 0)"
    by (simp_all only: float_div_unit float_ge.simps)
  with match_chain_problem show ?thesis by (intro conjI)
qed


section \<open>Serialization\<close>

subsection \<open>Decoding an encoded pattern\<close>

text \<open>Every encoder is undone by its decoder, except that the solution comes back with
  empty metadata.\<close>

lemma bind_err_simps [simp]:
  "bind_err (Inr v) f = f v" "bind_err (Inl e) f = Inl e"
  by (simp_all add: bind_err_def)

lemma get_simps [simp]:
  "get_item key (Some x) = Inr x" "get_item key None = Inl (KeyError key)"
  "get_default (Some x) d = x" "get_default None d = d"
  by (simp_all add: get_item_def get_default_def)

lemma map_err_map:
  "(\<And>x. x \<in> set xs \<Longrightarrow> f (g x) = Inr (h x)) \<Longrightarrow> map_err f (map g xs) = Inr (map h xs)"
  by (induction xs) simp_all

lemma ConstraintType_roundtrip: "ConstraintType_of (ConstraintType_value t) = Inr t"
  by (cases t) (simp_all add: ConstraintType_of_def)

lemma GoalType_roundtrip: "GoalType_of (GoalType_value t) = Inr t"
  by (cases t) (simp_all add: GoalType_of_def)

lemma Operation_roundtrip: "Operation_of (Operation_value t) = Inr t"
  by (cases t) (simp_all add: Operation_of_def)

lemma CompositionType_roundtrip: "CompositionType_of (CompositionType_value t) = Inr t"
  by (cases t) (simp_all add: CompositionType_of_def)

lemma entity_roundtrip: "dict_to_entity (entity_to_dict e) = Inr e"
  by (simp add: dict_to_entity_def entity_to_dict_def)

lemma relation_roundtrip: "dict_to_relation (relation_to_dict r) = Inr r"
  by (simp add: dict_to_relation_def relation_to_dict_def)

lemma constraint_roundtrip: "dict_to_constraint (constraint_to_dict c) = Inr c"
  by (simp add: dict_to_constraint_def constraint_to_dict_def ConstraintType_roundtrip)

lemma goal_roundtrip: "dict_to_goal (goal_to_dict g) = Inr g"
  by (cases g) (simp_all add: dict_to_goal_def goal_to_dict_def GoalType_roundtrip)

lemma problem_roundtrip: "dict_to_problem (problem_to_dict p) = Inr p"
  by (simp add: dict_to_problem_def problem_to_dict_def goal_roundtrip
      map_err_map [where h = "\<lambda>x. x"] entity_roundtrip relation_roundtrip constraint_roundtrip)

lemma step_roundtrip: "dict_to_step (step_to_dict s) = Inr s"
  by (simp add: dict_to_step_def step_to_dict_def Operation_roundtrip)

lemma postcondition_roundtrip: "dict_to_postcondition (postcondition_to_dict pc) = Inr pc"
  by (simp add: dict_to_postcondition_def postcondition_to_dict_def)

lemma instantiation_roundtrip: "dict_to_instantiation (instantiation_to_dict i) = Inr i"
  by (simp add: dict_to_instantiation_def instantiation_to_dict_def)

lemma solution_roundtrip:
  "dict_to_solution (solution_to_dict s) = Inr (s\<lparr>solution_metadata := []\<rparr>)"
  by (simp add: dict_to_solution_def solution_to_dict_def CompositionType_roundtrip
      map_err_map [where h = "\<lambda>x. x"] step_roundtrip postcondition_roundtrip)

lemma pattern_roundtrip:
  "dict_to_pattern (pattern_to_dict p) =
     Inr (p\<lparr>pattern_solution := (pattern_solution p)\<lparr>solution_metadata := []\<rparr>\<rparr>)"
  by (simp add: dict_to_pattern_def pattern_to_dict_def problem_roundtrip solution_roundtrip
      map_err_map [where h = "\<lambda>x. x"] instantiation_roundtrip)

subsection \<open>A failing load\<close>

lemma load_ok:
  "map_err dict_to_pattern items = Inr ps \<Longrightarrow> load items st = (fold add ps st, None)"
proof (induction items arbitrary: ps st)
  case Nil
  then show ?case by simp
next
  case (Cons item items)
  from Cons.prems obtain p ps' where p: "dict_to_pattern item = Inr p"
    and ps': "map_err dict_to_pattern items = Inr ps'" and ps: "ps = p # ps'"
    by (auto simp: bind_err_def split: sum.splits)
  from Cons.IH [OF ps'] p ps show ?case by (simp add: add_def)
qed








subsection \<open>save, then load\<close>

lemma update_fresh: "k \<notin> fst ` set al \<Longrightarrow> AList.update k v al = al @ [(k, v)]"
  by (induction al) auto

lemma fold_add_store:
  "store_ok st \<Longrightarrow> fst ` set acc \<inter> fst ` set st = {} \<Longrightarrow>
   fold add (map snd st) acc = acc @ st"
proof (induction st arbitrary: acc)
  case Nil
  then show ?case by simp
next
  case (Cons kp st)
  from Cons.prems(1) have d: "distinct (map fst (kp # st))"
    and la: "list_all (\<lambda>kp. fst kp = pattern_id (snd kp)) (kp # st)"
    unfolding store_ok_def by blast+
  from d have fresh: "fst kp \<notin> fst ` set st" and d': "distinct (map fst st)" by simp_all
  from la have key: "fst kp = pattern_id (snd kp)"
    and la': "list_all (\<lambda>kp. fst kp = pattern_id (snd kp)) st" by simp_all
  from d' la' have ok: "store_ok st" unfolding store_ok_def by blast
  from Cons.prems(2) have new: "fst kp \<notin> fst ` set acc" by auto
  then have step: "add (snd kp) acc = acc @ [kp]"
    by (simp add: add_def key [symmetric] update_fresh)
  have "fst ` set (acc @ [kp]) \<inter> fst ` set st = {}"
  proof -
    have "fst ` set acc \<inter> fst ` set st = {}" using Cons.prems(2) by auto
    moreover have "{fst kp} \<inter> fst ` set st = {}" using fresh by simp
    ultimately show ?thesis by (simp add: image_Un Int_Un_distrib2)
  qed
  from Cons.IH [OF ok this] step show ?case by simp
qed

lemma load_save:
  "load (save st) st0 = (fold add (map without_metadata (all_patterns st)) st0, None)"
proof -
  have "map_err dict_to_pattern (map pattern_to_dict (all_patterns st)) =
      Inr (map without_metadata (all_patterns st))"
    by (rule map_err_map) (simp add: pattern_roundtrip without_metadata_def)
  then show ?thesis by (simp add: save_def load_ok)
qed

lemma save_load_without_metadata:
  assumes "store_ok st"
    and "\<And>p. p \<in> set (all_patterns st) \<Longrightarrow> solution_metadata (pattern_solution p) = []"
  shows "load (save st) [] = (st, None)"
proof -
  have "map without_metadata (all_patterns st) = map snd st"
    using assms(2) by (simp add: all_patterns_def without_metadata_def)
  with fold_add_store [OF assms(1), of "[]"] show ?thesis by (simp add: load_save)
qed

text \<open>
  C6. Saving a store and loading the result into a fresh empty store is claimed to
  reproduce every pattern field for field, every field of the solution included. The
  solution's \<open>metadata\<close> is neither written by \<open>_pattern_to_dict\<close> nor read by
  \<open>_dict_to_pattern\<close>: a stored pattern whose solution has the metadata
  \<open>{"author": "x"}\<close> comes back with empty metadata, a different pattern. For stores
  whose solutions have empty metadata the round trip is the identity
  (\<open>save_load_without_metadata\<close>).
\<close>

theorem save_load_drops_metadata:
  "load (save [(''p'', example_pattern ''p'' [] [(''author'', JStr ''x'')])]) [] =
     ([(''p'', example_pattern ''p'' [] [])], None)
   \<and> example_pattern ''p'' [] [] \<noteq> example_pattern ''p'' [] [(''author'', JStr ''x'')]"
  by (simp add: load_save all_patterns_def without_metadata_def add_def)
    (simp add: example_pattern_def)

section \<open>The reverse operation dictionary\<close>

lemma inverse_fold_other:
  "a \<notin> snd ` set xs \<Longrightarrow>
   map_of (fold (\<lambda>kv d. AList.update (snd kv) (fst kv) d) xs d) a = map_of d a"
  by (induction xs arbitrary: d) (auto simp: update_conv')

lemma inverse_fold_entry:
  "distinct (map snd xs) \<Longrightarrow> (c, a) \<in> set xs \<Longrightarrow>
   map_of (fold (\<lambda>kv d. AList.update (snd kv) (fst kv) d) xs d) a = Some c"
proof (induction xs arbitrary: d)
  case Nil
  then show ?case by simp
next
  case (Cons kv xs)
  show ?case
  proof (cases "kv = (c, a)")
    case True
    with Cons.prems(1) have "a \<notin> snd ` set xs" by auto
    with True show ?thesis by (simp add: inverse_fold_other update_conv')
  next
    case False
    with Cons.prems have "(c, a) \<in> set xs" "distinct (map snd xs)" by auto
    with Cons.IH show ?thesis by simp
  qed
qed

text \<open>
  C9. For every domain mapping whose operation dictionary maps no two concrete labels to
  the same abstract label, and every entry \<open>(c, a)\<close> of it, the reverse operation
  dictionary maps \<open>a\<close> to \<open>c\<close>.
\<close>

theorem inverse_operation_map_roundtrip:
  "distinct (map snd (operation_map m)) \<Longrightarrow> (c, a) \<in> set (operation_map m)
   \<Longrightarrow> map_of (inverse_operation_map m) a = Some c"
  by (simp add: inverse_operation_map_def inverse_fold_entry)

theorem inverse_operation_map_roundtrip_witness:
  "distinct (map snd (operation_map
      \<lparr>mapping_domain = ''software'', type_map = [],
       operation_map = [(''split'', ''decompose''), (''merge'', ''compose'')],
       mapping_axioms = []\<rparr>))
   \<and> (''merge'', ''compose'') \<in> set (operation_map
      \<lparr>mapping_domain = ''software'', type_map = [],
       operation_map = [(''split'', ''decompose''), (''merge'', ''compose'')],
       mapping_axioms = []\<rparr>)
   \<and> map_of (inverse_operation_map
      \<lparr>mapping_domain = ''software'', type_map = [],
       operation_map = [(''split'', ''decompose''), (''merge'', ''compose'')],
       mapping_axioms = []\<rparr>) ''compose'' = Some ''merge''"
  using inverse_operation_map_roundtrip [of
      "\<lparr>mapping_domain = ''software'', type_map = [],
       operation_map = [(''split'', ''decompose''), (''merge'', ''compose'')],
       mapping_axioms = []\<rparr>" "''merge''" "''compose''"]
  by simp


end
